theory Spec2Isabelle
  imports Main
begin

section \<open>Data model (types.ts, models)\<close>

datatype player = Blue | Red

datatype pieceType = Queen | Pawn

datatype gameStatus = Active | Inactive

text \<open>The UI label of a tile; \<open>NoOwner\<close> is the string "none".\<close>

datatype tileOwner = BluePawn | RedPawn | BlueQueen | RedQueen | NoOwner

text \<open>Class \<open>Piece\<close>: two private fields read through \<open>getOwner\<close> and \<open>getType\<close>.\<close>

datatype piece = Piece (getOwner: player) (getType: pieceType)

text \<open>
  Class \<open>Tile\<close> has immutable \<open>row\<close> and \<open>column\<close> and a mutable \<open>piece\<close>. The board
  constructor makes exactly one tile object per coordinate, and the code compares
  tiles by reference (\<open>===\<close>, \<open>includes\<close>). A tile reference is therefore modelled by its
  coordinates (row, column), and the mutable \<open>piece\<close> fields of all tiles form a
  store from tile references to optional pieces: the \<open>board\<close>.
\<close>

type_synonym tile = "int \<times> int"

definition getRow :: "tile \<Rightarrow> int" where
  "getRow t = fst t"

definition getColumn :: "tile \<Rightarrow> int" where
  "getColumn t = snd t"

type_synonym board = "tile \<Rightarrow> piece option"

definition getPiece :: "board \<Rightarrow> tile \<Rightarrow> piece option" where
  "getPiece b t = b t"

definition setPiece :: "board \<Rightarrow> tile \<Rightarrow> piece option \<Rightarrow> board" where
  "setPiece b t p = b(t := p)"

text \<open>\<open>Board.tiles\<close>: 64 tiles, tile \<open>index\<close> has column \<open>index % 8\<close> and row \<open>floor(index / 8)\<close>.\<close>

definition getTiles :: "tile list" where
  "getTiles = map (\<lambda>index. (index div 8, index mod 8)) [0..63]"

text \<open>\<open>Board.getTile\<close>: the first tile with that row and column, \<open>None\<close> for \<open>undefined\<close>.\<close>

definition getTile :: "int \<Rightarrow> int \<Rightarrow> tile option" where
  "getTile row column = find (\<lambda>t. getRow t = row \<and> getColumn t = column) getTiles"

text \<open>The pieces the \<open>Board\<close> constructor places.\<close>

definition newBoard :: board where
  "newBoard = (\<lambda>(row, column).
     if 0 \<le> row \<and> row \<le> 7 \<and> 0 \<le> column \<and> column \<le> 7 then
       (let index = row * 8 + column in
        if (row + column) mod 2 = 0 then
          (if index < 24 then
             (if index = 0 then Some (Piece Blue Queen) else Some (Piece Blue Pawn))
           else if index > 40 then
             (if index = 63 then Some (Piece Red Queen) else Some (Piece Red Pawn))
           else None)
        else None)
     else None)"

record ValidDestination =
  path :: "tile list"
  destination :: tile
  captures :: "tile list"

record Move =
  move_from :: "tile option"
  move_to :: "tile option"
  possiblePaths :: "tile list list"
  validDestinations :: "ValidDestination list"

record GameState =
  board :: board
  status :: gameStatus
  winner :: "player option"
  move :: Move
  activePlayer :: player

record TileInstruction =
  colToSet :: int
  rowToSet :: int
  newOwner :: tileOwner

record Instruction =
  tileInstructions :: "TileInstruction list"
  playing :: player
  instr_winner :: "player option"

text \<open>The two concrete subclasses of \<open>Game\<close>.\<close>

datatype variant = BaseGame | BonusGame

section \<open>Board queries\<close>

definition isTileOcuppied :: "board \<Rightarrow> tile \<Rightarrow> bool" where
  "isTileOcuppied b t = (getPiece b t \<noteq> None)"

definition tileBelongsToPlayer :: "board \<Rightarrow> tile \<Rightarrow> player \<Rightarrow> bool" where
  "tileBelongsToPlayer b t pl = (map_option getOwner (getPiece b t) = Some pl)"

definition isQueen :: "piece \<Rightarrow> bool" where
  "isQueen p = (getType p = Queen)"

text \<open>Directions are pairs (delta column, delta row).\<close>

definition getDirections :: "piece \<Rightarrow> (int \<times> int) list" where
  "getDirections p =
     (if isQueen p then [(1, 1), (1, -1), (-1, 1), (-1, -1)]
      else if getOwner p = Blue then [(-1, 1), (1, 1)]
      else [(-1, -1), (1, -1)])"

definition getAdjacentLandings ::
  "board \<Rightarrow> tile \<Rightarrow> tile \<Rightarrow> piece \<Rightarrow> int option \<Rightarrow> int option \<Rightarrow> tile list" where
  "getAdjacentLandings b startingTile t p captureXDirection captureYDirection =
     (let row = getRow t;
          column = getColumn t;
          directions0 = getDirections p;
          directions1 = (case captureXDirection of
             None \<Rightarrow> directions0
           | Some x \<Rightarrow> filter (\<lambda>direction. fst direction = x) directions0);
          directions2 = (case captureYDirection of
             None \<Rightarrow> directions1
           | Some y \<Rightarrow> filter (\<lambda>direction. snd direction = y) directions1)
      in concat (map (\<lambda>direction.
           (let dest = getTile (row + snd direction) (column + fst direction) in
            (case dest of
               None \<Rightarrow> []
             | Some d \<Rightarrow> (if \<not> isTileOcuppied b d then [d] else [])) @
            (if dest = Some startingTile then [startingTile] else [])))
         directions2))"

definition getAdjacentEnemies :: "board \<Rightarrow> tile \<Rightarrow> piece \<Rightarrow> tile list" where
  "getAdjacentEnemies b t p =
     (let row = getRow t;
          column = getColumn t;
          directions = getDirections p
      in concat (map (\<lambda>direction.
           (case getTile (row + snd direction) (column + fst direction) of
              None \<Rightarrow> []
            | Some d \<Rightarrow>
                (if isTileOcuppied b d \<and> \<not> tileBelongsToPlayer b d (getOwner p)
                 then [d] else [])))
         directions))"

definition isFirstMove :: "tile list \<Rightarrow> bool" where
  "isFirstMove pth = (length pth = 1)"

definition isPotentialCapture :: "board \<Rightarrow> tile \<Rightarrow> tile list \<Rightarrow> bool" where
  "isPotentialCapture b t pth = (isTileOcuppied b t \<and> length pth > 1)"

definition canLookForEnemies :: "board \<Rightarrow> tile \<Rightarrow> tile \<Rightarrow> tile list \<Rightarrow> bool" where
  "canLookForEnemies b t startingTile pth =
     ((\<not> isTileOcuppied b t \<and> length pth > 2) \<or> (t = startingTile \<and> length pth = 1))"

text \<open>Facts about the tile list that the termination argument of the search needs.\<close>

lemma set_getTiles:
  "set getTiles = {t. 0 \<le> fst t \<and> fst t \<le> 7 \<and> 0 \<le> snd t \<and> snd t \<le> 7}"
proof (rule set_eqI)
  fix t :: tile
  obtain r c where t: "t = (r, c)" by (cases t)
  show "t \<in> set getTiles \<longleftrightarrow> t \<in> {t. 0 \<le> fst t \<and> fst t \<le> 7 \<and> 0 \<le> snd t \<and> snd t \<le> 7}"
  proof
    assume "t \<in> set getTiles"
    then obtain i :: int where i: "0 \<le> i" "i \<le> 63" "r = i div 8" "c = i mod 8"
      using t by (auto simp: getTiles_def)
    then show "t \<in> {t. 0 \<le> fst t \<and> fst t \<le> 7 \<and> 0 \<le> snd t \<and> snd t \<le> 7}"
      using t by auto
  next
    assume "t \<in> {t. 0 \<le> fst t \<and> fst t \<le> 7 \<and> 0 \<le> snd t \<and> snd t \<le> 7}"
    then have rc: "0 \<le> r" "r \<le> 7" "0 \<le> c" "c \<le> 7" using t by auto
    define i where "i = r * 8 + c"
    have "0 \<le> i" "i \<le> 63" "i div 8 = r" "i mod 8 = c"
      using rc by (auto simp: i_def)
    then have "(r, c) \<in> (\<lambda>index. (index div 8, index mod 8)) ` {0..63}"
      by (intro image_eqI[where x = i]) auto
    then show "t \<in> set getTiles" using t by (simp add: getTiles_def)
  qed
qed

lemma getTile_eq:
  "getTile row column =
     (if 0 \<le> row \<and> row \<le> 7 \<and> 0 \<le> column \<and> column \<le> 7 then Some (row, column) else None)"
proof (cases "getTile row column")
  case None
  then have "(row, column) \<notin> set getTiles"
    by (auto simp: getTile_def find_None_iff getRow_def getColumn_def)
  then show ?thesis using None by (auto simp: set_getTiles)
next
  case (Some t)
  then obtain i where "i < length getTiles" "getTiles ! i = t"
      and rc: "getRow t = row" "getColumn t = column"
    unfolding getTile_def find_Some_iff by blast
  then have "t \<in> set getTiles" using nth_mem by blast
  then have "0 \<le> fst t \<and> fst t \<le> 7 \<and> 0 \<le> snd t \<and> snd t \<le> 7"
    unfolding set_getTiles by simp
  moreover have "t = (row, column)"
    using rc by (cases t) (simp add: getRow_def getColumn_def)
  ultimately show ?thesis unfolding Some by simp
qed

lemma getTile_Some_iff: "getTile row column = Some t \<longleftrightarrow> t = (row, column) \<and> t \<in> set getTiles"
  by (auto simp: getTile_eq set_getTiles)

lemma finite_getTiles: "finite (set getTiles)"
  by simp


lemma getTile_eq2: "getTile r c = (if (r, c) \<in> set getTiles then Some (r, c) else None)"
  by (simp add: getTile_eq set_getTiles)

lemma set_filter_directions:
  "set (case yd of None \<Rightarrow> (case xd of None \<Rightarrow> ds | Some x \<Rightarrow> filter (\<lambda>d. fst d = x) ds)
              | Some y \<Rightarrow> filter (\<lambda>d. snd d = y)
                  (case xd of None \<Rightarrow> ds | Some x \<Rightarrow> filter (\<lambda>d. fst d = x) ds)) =
   {d \<in> set ds. (xd = None \<or> xd = Some (fst d)) \<and> (yd = None \<or> yd = Some (snd d))}"
  by (cases xd; cases yd) auto

lemma in_getAdjacentLandings:
  "t \<in> set (getAdjacentLandings b s f p xd yd) \<longleftrightarrow>
     (\<exists>d \<in> set (getDirections p).
        (xd = None \<or> xd = Some (fst d)) \<and> (yd = None \<or> yd = Some (snd d)) \<and>
        t = (getRow f + snd d, getColumn f + fst d) \<and> t \<in> set getTiles \<and>
        (\<not> isTileOcuppied b t \<or> t = s))"
proof -
  have "t \<in> set (getAdjacentLandings b s f p xd yd) \<longleftrightarrow>
     (\<exists>d \<in> {d \<in> set (getDirections p). (xd = None \<or> xd = Some (fst d)) \<and> (yd = None \<or> yd = Some (snd d))}.
        t = (getRow f + snd d, getColumn f + fst d) \<and> t \<in> set getTiles \<and>
        (\<not> isTileOcuppied b t \<or> t = s))"
    unfolding getAdjacentLandings_def Let_def set_concat set_map set_filter_directions getTile_eq2
    by (auto split: if_splits)
  then show ?thesis by blast
qed

lemma in_getAdjacentEnemies:
  "t \<in> set (getAdjacentEnemies b f p) \<longleftrightarrow>
     (\<exists>d \<in> set (getDirections p).
        t = (getRow f + snd d, getColumn f + fst d) \<and> t \<in> set getTiles \<and>
        isTileOcuppied b t \<and> \<not> tileBelongsToPlayer b t (getOwner p))"
  unfolding getAdjacentEnemies_def Let_def getTile_eq2
  by (auto split: if_splits)

lemma getDirections_nonzero: "d \<in> set (getDirections p) \<Longrightarrow> fst d \<noteq> 0 \<and> snd d \<noteq> 0"
  by (auto simp: getDirections_def split: if_splits)

lemma step_neq:
  "d \<in> set (getDirections p) \<Longrightarrow> (getRow f + snd d, getColumn f + fst d) \<noteq> f"
  using getDirections_nonzero[of d p] by (cases f) (auto simp: getRow_def getColumn_def)

definition unvisited :: "tile list \<Rightarrow> nat" where
  "unvisited pth = card (set getTiles - set pth)"

lemma unvisited_less:
  "t \<in> set getTiles \<Longrightarrow> t \<notin> set pth \<Longrightarrow> unvisited (pth @ [t]) < unvisited pth"
  unfolding unvisited_def
  by (intro psubset_card_mono) auto

function setPathsDFS :: "board \<Rightarrow> tile \<Rightarrow> tile \<Rightarrow> piece \<Rightarrow> tile list \<Rightarrow> tile list list" where
  "setPathsDFS b startingTile fromTile p path0 =
     (let pth = path0 @ [fromTile] in
      (if isFirstMove pth then
         concat (map (\<lambda>landing. setPathsDFS b startingTile landing p pth)
           (getAdjacentLandings b startingTile fromTile p None None))
       else []) @
      (if isPotentialCapture b fromTile pth then
         (let xDirection = Some (getColumn (last pth) - getColumn (last (butlast pth)));
              yDirection = Some (getRow (last pth) - getRow (last (butlast pth)));
              landings = getAdjacentLandings b startingTile fromTile p xDirection yDirection
          in concat (map (\<lambda>landing.
               if landing \<notin> set pth then setPathsDFS b startingTile landing p pth
               else if landing = startingTile \<and> length pth > 2 then [pth @ [landing]]
               else [])
             landings))
       else []) @
      (if canLookForEnemies b fromTile startingTile pth then
         concat (map (\<lambda>enemy.
             if enemy \<notin> set pth then setPathsDFS b startingTile enemy p pth else [])
           (getAdjacentEnemies b fromTile p))
       else []) @
      (if \<not> isTileOcuppied b fromTile then [pth] else []))"
  by pat_completeness auto
termination
proof (relation "measure (\<lambda>(b, startingTile, fromTile, p, path0). unvisited (path0 @ [fromTile]))", goal_cases)
  case 1
  show ?case by simp
next
  case (2 b startingTile fromTile p path0 pth landing)
  then have "path0 = []" by (simp add: isFirstMove_def)
  moreover obtain d where "d \<in> set (getDirections p)"
      "landing = (getRow fromTile + snd d, getColumn fromTile + fst d)"
      "landing \<in> set getTiles"
    using 2(3) unfolding in_getAdjacentLandings by blast
  then have "landing \<in> set getTiles" "landing \<noteq> fromTile"
    using step_neq[of d p fromTile] by simp_all
  ultimately show ?case using 2(1) unvisited_less[of landing pth] by simp
next
  case (3 b startingTile fromTile p path0 pth xd yd landings landing)
  then have "landing \<in> set (getAdjacentLandings b startingTile fromTile p xd yd)" by simp
  then have "landing \<in> set getTiles" unfolding in_getAdjacentLandings by blast
  then show ?case using 3 unvisited_less[of landing pth] by simp
next
  case (4 b startingTile fromTile p path0 pth enemy)
  then have "enemy \<in> set getTiles" unfolding in_getAdjacentEnemies by blast
  then show ?case using 4 unvisited_less[of enemy pth] by simp
qed

declare setPathsDFS.simps [simp del]

text \<open>
  \<open>setPathsDFS\<close> reads the board and only appends to \<open>possiblePaths\<close>; the function above
  returns the paths one call pushes, in push order (each \<open>forEach\<close> is the concatenation
  of what its iterations push). \<open>runSetPathsDFS\<close> is the call as the game state sees it.
\<close>

definition runSetPathsDFS :: "GameState \<Rightarrow> tile \<Rightarrow> tile \<Rightarrow> piece \<Rightarrow> GameState" where
  "runSetPathsDFS gs startingTile fromTile p =
     gs\<lparr>move := (move gs)\<lparr>possiblePaths :=
       possiblePaths (move gs) @ setPathsDFS (board gs) startingTile fromTile p []\<rparr>\<rparr>"

section \<open>Game operations\<close>

text \<open>
  The only exception the game code can raise: a method call on an \<open>undefined\<close> piece,
  behind a non-null assertion (\<open>piece!\<close>).
\<close>

datatype error = TypeError

definition initialState :: GameState where
  "initialState =
     \<lparr>board = newBoard, status = Active, winner = None,
      move = \<lparr>move_from = None, move_to = None, possiblePaths = [], validDestinations = []\<rparr>,
      activePlayer = Blue\<rparr>"

definition getQueen :: "board \<Rightarrow> player \<Rightarrow> tile option" where
  "getQueen b pl =
     find (\<lambda>t. map_option getOwner (getPiece b t) = Some pl \<and>
               map_option getType (getPiece b t) = Some Queen) getTiles"

definition getIdlePieceTiles :: "board \<Rightarrow> player \<Rightarrow> tile list" where
  "getIdlePieceTiles b pl =
     (let tiles = filter (\<lambda>t. map_option getOwner (getPiece b t) = Some pl) getTiles;
          furthestRow =
            (if pl = Blue
             then foldl (\<lambda>acc t. if getRow t < acc then getRow t else acc) 7 tiles
             else foldl (\<lambda>acc t. if getRow t > acc then getRow t else acc) 0 tiles)
      in filter (\<lambda>t. getRow t = furthestRow) tiles)"

definition isValidQueen :: "board \<Rightarrow> tile \<Rightarrow> player \<Rightarrow> bool" where
  "isValidQueen b t pl = list_ex (\<lambda>idle. idle = t) (getIdlePieceTiles b pl)"

definition setNewQueen :: "board \<Rightarrow> tile \<Rightarrow> player \<Rightarrow> board" where
  "setNewQueen b t pl = setPiece b t (Some (Piece pl Queen))"

definition playerHasQueen :: "board \<Rightarrow> player \<Rightarrow> bool" where
  "playerHasQueen b pl = (getQueen b pl \<noteq> None)"

definition hasPlayerWon :: "board \<Rightarrow> player \<Rightarrow> bool" where
  "hasPlayerWon b pl =
     (let winningRow = (if pl = Blue then 7 else 0)
      in map_option getRow (getQueen b pl) = Some winningRow)"

definition setWinner :: "GameState \<Rightarrow> player \<Rightarrow> GameState" where
  "setWinner gs pl = gs\<lparr>winner := Some pl, status := Inactive\<rparr>"

definition isGameWon :: "GameState \<Rightarrow> bool" where
  "isGameWon gs = (winner gs \<noteq> None)"

definition capture :: "board \<Rightarrow> tile list \<Rightarrow> board" where
  "capture b caps = foldl (\<lambda>b' t. setPiece b' t None) b caps"

definition setTilePiece :: "board \<Rightarrow> tile \<Rightarrow> piece option \<Rightarrow> board" where
  "setTilePiece b t p = setPiece b t p"

definition resetMove :: "GameState \<Rightarrow> GameState" where
  "resetMove gs =
     gs\<lparr>move := (move gs)\<lparr>move_from := None, move_to := None,
                            possiblePaths := [], validDestinations := []\<rparr>\<rparr>"

definition setTo :: "GameState \<Rightarrow> tile \<Rightarrow> GameState" where
  "setTo gs t = gs\<lparr>move := (move gs)\<lparr>move_to := Some t\<rparr>\<rparr>"

definition isToValid :: "GameState \<Rightarrow> tile \<Rightarrow> bool" where
  "isToValid gs t = list_ex (\<lambda>vd. destination vd = t) (validDestinations (move gs))"

definition rivalHasPieces :: "board \<Rightarrow> player \<Rightarrow> bool" where
  "rivalHasPieces b pl =
     (let rival = (if pl = Blue then Red else Blue)
      in list_ex (\<lambda>t. map_option getOwner (getPiece b t) = Some rival) getTiles)"

definition isFromSet :: "GameState \<Rightarrow> bool" where
  "isFromSet gs = (move_from (move gs) \<noteq> None)"

definition isToSet :: "GameState \<Rightarrow> bool" where
  "isToSet gs = (move_to (move gs) \<noteq> None)"

definition isToTheSameAsFrom :: "tile \<Rightarrow> tile \<Rightarrow> bool" where
  "isToTheSameAsFrom fromTile toTile = (fromTile = toTile)"

text \<open>The template string \<open>`${color} ${pieceType}`\<close>.\<close>

fun ownerString :: "player \<Rightarrow> pieceType \<Rightarrow> tileOwner" where
  "ownerString Blue Pawn = BluePawn"
| "ownerString Blue Queen = BlueQueen"
| "ownerString Red Pawn = RedPawn"
| "ownerString Red Queen = RedQueen"

definition getTileOwnerString :: "board \<Rightarrow> tile \<Rightarrow> tileOwner" where
  "getTileOwnerString b t =
     (case getPiece b t of
        Some p \<Rightarrow> ownerString (getOwner p) (getType p)
      | None \<Rightarrow> NoOwner)"

definition getCaptureInstructions :: "tile list \<Rightarrow> TileInstruction list" where
  "getCaptureInstructions caps =
     map (\<lambda>c. \<lparr>colToSet = getColumn c, rowToSet = getRow c, newOwner = NoOwner\<rparr>) caps"

definition getCapturesForDestination :: "GameState \<Rightarrow> tile \<Rightarrow> tile list" where
  "getCapturesForDestination gs t =
     (case find (\<lambda>vd. destination vd = t) (validDestinations (move gs)) of
        Some d \<Rightarrow> captures d
      | None \<Rightarrow> [])"

definition getCapturesForPath :: "board \<Rightarrow> tile list \<Rightarrow> player \<Rightarrow> tile list" where
  "getCapturesForPath b pth pl =
     filter (\<lambda>t. isTileOcuppied b t \<and> \<not> tileBelongsToPlayer b t pl) pth"

definition switchPlayer :: "GameState \<Rightarrow> GameState" where
  "switchPlayer gs = gs\<lparr>activePlayer := (if activePlayer gs = Blue then Red else Blue)\<rparr>"

text \<open>
  \<open>setValidDestinations\<close>, abstract in \<open>Game\<close>: \<open>BaseGame\<close> keeps the paths of length 2 or 3,
  \<open>BonusGame\<close> keeps the paths longer than 2 when there is one and all paths otherwise.
  Every path in \<open>possiblePaths\<close> was pushed by the search and is not empty, so
  \<open>path.at(-1)\<close> is its last tile.
\<close>

definition validPaths :: "variant \<Rightarrow> tile list list \<Rightarrow> tile list list" where
  "validPaths v paths =
     (case v of
        BaseGame \<Rightarrow> filter (\<lambda>pth. length pth = 3 \<or> length pth = 2) paths
      | BonusGame \<Rightarrow>
          (if list_ex (\<lambda>pth. length pth > 2) paths
           then filter (\<lambda>pth. length pth > 2) paths
           else paths))"

definition setValidDestinations :: "variant \<Rightarrow> GameState \<Rightarrow> player \<Rightarrow> GameState" where
  "setValidDestinations v gs pl =
     gs\<lparr>move := (move gs)\<lparr>validDestinations :=
       validDestinations (move gs) @
       map (\<lambda>pth. \<lparr>path = pth, destination = last pth,
                    captures = getCapturesForPath (board gs) pth pl\<rparr>)
         (validPaths v (possiblePaths (move gs)))\<rparr>\<rparr>"

text \<open>\<open>setFrom\<close>: \<open>tile.getPiece()!\<close> raises inside the search when the tile is empty.\<close>

definition setFrom :: "variant \<Rightarrow> GameState \<Rightarrow> tile \<Rightarrow> player \<Rightarrow> error + GameState" where
  "setFrom v gs t pl =
     (case getPiece (board gs) t of
        None \<Rightarrow> Inl TypeError
      | Some p \<Rightarrow>
          (let gs1 = gs\<lparr>move := (move gs)\<lparr>move_from := Some t\<rparr>\<rparr>;
               gs2 = runSetPathsDFS gs1 t t p
           in Inr (setValidDestinations v gs2 pl)))"

text \<open>
  The \<open>forEach\<close> of \<open>BonusGame.isFromValid\<close> over all tiles of the player: each
  iteration simulates the move from one tile, records whether it has captures and
  whether it has destinations, and resets the move.
\<close>

fun simulateFroms ::
  "GameState \<Rightarrow> player \<Rightarrow> tile list \<Rightarrow> tile list \<Rightarrow> tile list \<Rightarrow>
     error + (GameState \<times> tile list \<times> tile list)" where
  "simulateFroms gs pl [] fromsWithCaptures fromsWithDestinations =
     Inr (gs, fromsWithCaptures, fromsWithDestinations)"
| "simulateFroms gs pl (fromTile # rest) fromsWithCaptures fromsWithDestinations =
     (case getPiece (board gs) fromTile of
        None \<Rightarrow> Inl TypeError
      | Some p \<Rightarrow>
          (let gs1 = gs\<lparr>move := (move gs)\<lparr>move_from := Some fromTile\<rparr>\<rparr>;
               gs2 = runSetPathsDFS gs1 fromTile fromTile p;
               gs3 = setValidDestinations BonusGame gs2 pl;
               vds = validDestinations (move gs3);
               fromsWithCaptures' =
                 (if list_ex (\<lambda>vd. length (captures vd) > 0) vds
                  then fromsWithCaptures @ [fromTile] else fromsWithCaptures);
               fromsWithDestinations' =
                 (if length vds > 0
                  then fromsWithDestinations @ [fromTile] else fromsWithDestinations)
           in simulateFroms (resetMove gs3) pl rest fromsWithCaptures' fromsWithDestinations'))"

definition isFromValid ::
  "variant \<Rightarrow> GameState \<Rightarrow> tile \<Rightarrow> player \<Rightarrow> error + (bool \<times> GameState)" where
  "isFromValid v gs t pl =
     (case v of
        BaseGame \<Rightarrow>
          (if tileBelongsToPlayer (board gs) t pl then
             (let gs0 = resetMove gs in
              case getPiece (board gs0) t of
                None \<Rightarrow> Inr (False, gs0)
              | Some p \<Rightarrow>
                  (let gs1 = gs0\<lparr>move := (move gs0)\<lparr>move_from := Some t\<rparr>\<rparr>;
                       gs2 = runSetPathsDFS gs1 t t p;
                       gs3 = setValidDestinations BaseGame gs2 pl;
                       isValid = (length (validDestinations (move gs3)) \<noteq> 0)
                   in Inr (isValid, resetMove gs3)))
           else Inr (False, gs))
      | BonusGame \<Rightarrow>
          (if tileBelongsToPlayer (board gs) t pl then
             (let gs0 = resetMove gs;
                  allFroms = filter (\<lambda>t'. map_option getOwner (getPiece (board gs0) t') = Some pl)
                               getTiles
              in case simulateFroms gs0 pl allFroms [] [] of
                   Inl e \<Rightarrow> Inl e
                 | Inr (gs1, fromsWithCaptures, fromsWithDestinations) \<Rightarrow>
                     (if length fromsWithCaptures = 0
                      then Inr (t \<in> set fromsWithDestinations, gs1)
                      else Inr (t \<in> set fromsWithCaptures, gs1)))
           else Inr (False, gs)))"

text \<open>
  \<open>playGame\<close>: the result is the returned instruction (\<open>None\<close> for \<open>undefined\<close>) and the
  game state after the call. The two tests on \<open>isFromSet\<close> are one case distinction on
  \<open>move.from\<close>; with \<open>from\<close> and \<open>to\<close> both set the method falls off its end and
  returns \<open>undefined\<close>. The parameter \<open>owner\<close> is not used by the method.
\<close>

definition playGame ::
  "variant \<Rightarrow> GameState \<Rightarrow> int \<Rightarrow> int \<Rightarrow> tileOwner \<Rightarrow>
     error + (Instruction option \<times> GameState)" where
  "playGame v gs row column ownerArg =
     (let ap = activePlayer gs in
      case getTile row column of
        None \<Rightarrow> Inr (None, gs)
      | Some clickedTile \<Rightarrow>
          if isGameWon gs then Inr (None, gs)
          else if \<not> playerHasQueen (board gs) ap then
            (if isValidQueen (board gs) clickedTile ap then
               (let gs1 = gs\<lparr>board := setNewQueen (board gs) clickedTile ap\<rparr>;
                    gs2 = (if hasPlayerWon (board gs1) ap then setWinner gs1 ap else gs1)
                in Inr (Some \<lparr>tileInstructions =
                                [\<lparr>colToSet = column, rowToSet = row,
                                  newOwner = ownerString ap Queen\<rparr>],
                              playing = ap, instr_winner = winner gs2\<rparr>, gs2))
             else Inr (None, gs))
          else
            (case move_from (move gs) of
               None \<Rightarrow>
                 (case isFromValid v gs clickedTile ap of
                    Inl e \<Rightarrow> Inl e
                  | Inr (ok, gs1) \<Rightarrow>
                      if ok then
                        (case setFrom v gs1 clickedTile ap of
                           Inl e \<Rightarrow> Inl e
                         | Inr gs2 \<Rightarrow>
                             Inr (Some \<lparr>tileInstructions =
                                          [\<lparr>colToSet = column, rowToSet = row,
                                            newOwner = NoOwner\<rparr>],
                                        playing = ap, instr_winner = winner gs2\<rparr>, gs2))
                      else Inr (None, gs1))
             | Some fromTile \<Rightarrow>
                 if \<not> isToSet gs then
                   (let fromOwner = getTileOwnerString (board gs) fromTile in
                    if isToTheSameAsFrom fromTile clickedTile then
                      Inr (Some \<lparr>tileInstructions =
                                   [\<lparr>colToSet = column, rowToSet = row, newOwner = fromOwner\<rparr>],
                                 playing = ap, instr_winner = winner gs\<rparr>,
                           resetMove gs)
                    else if isToValid gs clickedTile then
                      (let gs1 = setTo gs clickedTile;
                           caps = getCapturesForDestination gs1 clickedTile;
                           captureInstructions = getCaptureInstructions caps;
                           b1 = capture (board gs1) caps;
                           b2 = setTilePiece b1 clickedTile (getPiece b1 fromTile);
                           b3 = setTilePiece b2 fromTile None;
                           gs2 = gs1\<lparr>board := b3\<rparr>;
                           gs3 = (if hasPlayerWon (board gs2) ap then setWinner gs2 ap
                                  else if rivalHasPieces (board gs2) ap then switchPlayer gs2
                                  else gs2)
                       in Inr (Some \<lparr>tileInstructions =
                                      \<lparr>colToSet = column, rowToSet = row, newOwner = fromOwner\<rparr>
                                      # captureInstructions,
                                    playing = activePlayer gs3, instr_winner = winner gs3\<rparr>,
                               resetMove gs3))
                    else Inr (None, gs))
                 else Inr (None, gs)))"

text \<open>\<open>restartGame\<close> replaces the game state; only the new state is modelled here.\<close>

definition restartGame :: "GameState \<Rightarrow> GameState" where
  "restartGame gs = initialState"

lemma in_setPathsDFS:
  "p \<in> set (setPathsDFS b s f pc path0) \<longleftrightarrow>
     (isFirstMove (path0 @ [f]) \<and>
        (\<exists>l \<in> set (getAdjacentLandings b s f pc None None).
           p \<in> set (setPathsDFS b s l pc (path0 @ [f])))) \<or>
     (isPotentialCapture b f (path0 @ [f]) \<and>
        (\<exists>l \<in> set (getAdjacentLandings b s f pc
                     (Some (getColumn f - getColumn (last path0)))
                     (Some (getRow f - getRow (last path0)))).
           (l \<notin> set (path0 @ [f]) \<and> p \<in> set (setPathsDFS b s l pc (path0 @ [f]))) \<or>
           (l \<in> set (path0 @ [f]) \<and> l = s \<and> length (path0 @ [f]) > 2 \<and> p = path0 @ [f] @ [l]))) \<or>
     (canLookForEnemies b f s (path0 @ [f]) \<and>
        (\<exists>e \<in> set (getAdjacentEnemies b f pc).
           e \<notin> set (path0 @ [f]) \<and> p \<in> set (setPathsDFS b s e pc (path0 @ [f])))) \<or>
     (\<not> isTileOcuppied b f \<and> p = path0 @ [f])"
  apply (subst setPathsDFS.simps)
  apply (simp only: Let_def butlast_snoc last_snoc set_append set_concat set_map Un_iff)
  apply (auto split: if_splits)
  done

definition stepOK :: "board \<Rightarrow> tile \<Rightarrow> piece \<Rightarrow> tile list \<Rightarrow> tile \<Rightarrow> bool" where
  "stepOK b s pc pth l \<longleftrightarrow>
     (isFirstMove pth \<and> l \<in> set (getAdjacentLandings b s (last pth) pc None None)) \<or>
     (isPotentialCapture b (last pth) pth \<and> l \<notin> set pth \<and>
      l \<in> set (getAdjacentLandings b s (last pth) pc
                 (Some (getColumn (last pth) - getColumn (last (butlast pth))))
                 (Some (getRow (last pth) - getRow (last (butlast pth)))))) \<or>
     (canLookForEnemies b (last pth) s pth \<and> l \<notin> set pth \<and>
      l \<in> set (getAdjacentEnemies b (last pth) pc))"

definition cycleOK :: "board \<Rightarrow> tile \<Rightarrow> piece \<Rightarrow> tile list \<Rightarrow> bool" where
  "cycleOK b s pc pth \<longleftrightarrow>
     isPotentialCapture b (last pth) pth \<and> 2 < length pth \<and> s \<in> set pth \<and>
     s \<in> set (getAdjacentLandings b s (last pth) pc
                 (Some (getColumn (last pth) - getColumn (last (butlast pth))))
                 (Some (getRow (last pth) - getRow (last (butlast pth)))))"

lemma setPathsDFS_invariant:
  assumes "p \<in> set (setPathsDFS b s f pc path0)"
    and "Q (path0 @ [f])"
    and ext: "\<And>pth l. Q pth \<Longrightarrow> pth \<noteq> [] \<Longrightarrow> stepOK b s pc pth l \<Longrightarrow> Q (pth @ [l])"
  shows "(Q p \<and> p \<noteq> [] \<and> \<not> isTileOcuppied b (last p)) \<or>
         (\<exists>pth. p = pth @ [s] \<and> Q pth \<and> cycleOK b s pc pth)"
  using assms
proof (induction b s f pc path0 rule: setPathsDFS.induct)
  case (1 b s f pc path0)
  let ?pth = "path0 @ [f]"
  note ext1 = "1.prems"(3)
  from "1.prems"(1) consider
      (step) l where "isFirstMove ?pth"
        "l \<in> set (getAdjacentLandings b s f pc None None)"
        "p \<in> set (setPathsDFS b s l pc ?pth)"
    | (jump) l where "isPotentialCapture b f ?pth"
        "l \<in> set (getAdjacentLandings b s f pc
                     (Some (getColumn f - getColumn (last path0)))
                     (Some (getRow f - getRow (last path0))))"
        "l \<notin> set ?pth" "p \<in> set (setPathsDFS b s l pc ?pth)"
    | (cycle) "isPotentialCapture b f ?pth" "2 < length ?pth" "p = ?pth @ [s]" "s \<in> set ?pth"
        "s \<in> set (getAdjacentLandings b s f pc
                     (Some (getColumn f - getColumn (last path0)))
                     (Some (getRow f - getRow (last path0))))"
    | (enemy) e where "canLookForEnemies b f s ?pth"
        "e \<in> set (getAdjacentEnemies b f pc)"
        "e \<notin> set ?pth" "p \<in> set (setPathsDFS b s e pc ?pth)"
    | (stop) "\<not> isTileOcuppied b f" "p = ?pth"
    unfolding in_setPathsDFS[of p b s f pc path0] by auto
  then show ?case
  proof cases
    case step
    have "stepOK b s pc ?pth l" using step(1,2) by (simp add: stepOK_def)
    then have "Q (?pth @ [l])" by (intro ext1[OF "1.prems"(2)]) simp_all
    from "1.IH"(1)[OF refl step this ext1] show ?thesis by simp
  next
    case jump
    have "stepOK b s pc ?pth l" using jump(1,2,3) by (simp add: stepOK_def butlast_snoc)
    then have "Q (?pth @ [l])" by (intro ext1[OF "1.prems"(2)]) simp_all
    from "1.IH"(2)[OF refl jump(1) refl refl refl _ jump(3) jump(4) this ext1] jump(2)
    show ?thesis by simp
  next
    case cycle
    have "cycleOK b s pc ?pth" using cycle by (simp add: cycleOK_def butlast_snoc)
    then show ?thesis using cycle(3) "1.prems"(2) by blast
  next
    case enemy
    have "stepOK b s pc ?pth e" using enemy(1,2,3) by (simp add: stepOK_def)
    then have "Q (?pth @ [e])" by (intro ext1[OF "1.prems"(2)]) simp_all
    from "1.IH"(3)[OF refl enemy this ext1] show ?thesis by simp
  next
    case stop
    then show ?thesis using "1.prems"(2) by simp
  qed
qed

lemma stepOK_fresh:
  assumes "stepOK b s pc pth l" "pth \<noteq> []"
  shows "l \<notin> set pth"
proof -
  consider (first) "isFirstMove pth" "l \<in> set (getAdjacentLandings b s (last pth) pc None None)"
    | (other) "l \<notin> set pth"
    using assms(1) unfolding stepOK_def by blast
  then show ?thesis
  proof cases
    case first
    then obtain x where pth: "pth = [x]"
      by (cases pth) (auto simp: isFirstMove_def)
    from first(2) obtain d where "d \<in> set (getDirections pc)"
        "l = (getRow x + snd d, getColumn x + fst d)"
      unfolding in_getAdjacentLandings pth by auto
    then have "l \<noteq> x" using step_neq[of d pc x] by simp
    then show ?thesis by (simp add: pth)
  next
    case other
    then show ?thesis .
  qed
qed

lemma stepOK_direction:
  assumes "stepOK b s pc pth l" "2 \<le> length pth" "isTileOcuppied b (last pth)"
  shows "getColumn l - getColumn (last pth) = getColumn (last pth) - getColumn (last (butlast pth)) \<and>
         getRow l - getRow (last pth) = getRow (last pth) - getRow (last (butlast pth))"
proof -
  have "l \<in> set (getAdjacentLandings b s (last pth) pc
                 (Some (getColumn (last pth) - getColumn (last (butlast pth))))
                 (Some (getRow (last pth) - getRow (last (butlast pth)))))"
    using assms unfolding stepOK_def isFirstMove_def canLookForEnemies_def by auto
  then show ?thesis
    unfolding in_getAdjacentLandings by (auto simp: getRow_def getColumn_def)
qed

lemma cycleOK_direction:
  assumes "cycleOK b s pc pth"
  shows "getColumn s - getColumn (last pth) = getColumn (last pth) - getColumn (last (butlast pth)) \<and>
         getRow s - getRow (last pth) = getRow (last pth) - getRow (last (butlast pth))"
proof -
  have "s \<in> set (getAdjacentLandings b s (last pth) pc
                 (Some (getColumn (last pth) - getColumn (last (butlast pth))))
                 (Some (getRow (last pth) - getRow (last (butlast pth)))))"
    using assms unfolding cycleOK_def by blast
  then show ?thesis
    unfolding in_getAdjacentLandings by (auto simp: getRow_def getColumn_def)
qed

text \<open>
  C1. Every path that \<open>setPathsDFS(source, source, piece)\<close> records on a board where the
  source holds the piece starts at the source. Its last tile is unoccupied, except when
  the last tile is the source itself (the cyclic return), and then the path accumulated
  before the source was appended has more than two entries.
\<close>

theorem C1_recorded_path_ends:
  assumes "getPiece b s = Some pc"
    and "p \<in> set (setPathsDFS b s s pc [])"
  shows "p \<noteq> [] \<and> hd p = s \<and>
         (if last p = s then 2 < length (butlast p) else \<not> isTileOcuppied b (last p))"
proof -
  have "(hd p = s \<and> p \<noteq> [] \<and> \<not> isTileOcuppied b (last p)) \<or>
        (\<exists>pth. p = pth @ [s] \<and> hd pth = s \<and> cycleOK b s pc pth)"
    by (rule setPathsDFS_invariant[OF assms(2), where Q = "\<lambda>pth. hd pth = s"]) simp_all
  moreover have "isTileOcuppied b s" using assms(1) by (simp add: isTileOcuppied_def)
  ultimately show ?thesis
    by (auto simp: cycleOK_def hd_append)
qed

text \<open>
  C2. No tile appears twice in a recorded path, except that a cyclic-return path ends on
  its first tile, the source; apart from that closing tile its tiles are pairwise
  distinct.
\<close>

theorem C2_recorded_path_distinct:
  assumes "p \<in> set (setPathsDFS b s s pc [])"
  shows "distinct p \<or>
         (last p = hd p \<and> hd p = s \<and> distinct (butlast p) \<and> distinct (tl p))"
proof -
  let ?Q = "\<lambda>pth. distinct pth \<and> pth \<noteq> [] \<and> hd pth = s"
  have "(?Q p \<and> p \<noteq> [] \<and> \<not> isTileOcuppied b (last p)) \<or>
        (\<exists>pth. p = pth @ [s] \<and> ?Q pth \<and> cycleOK b s pc pth)"
  proof (rule setPathsDFS_invariant[OF assms, where Q = ?Q])
    show "?Q ([] @ [s])" by simp
  next
    fix pth l
    assume "?Q pth" "pth \<noteq> []" "stepOK b s pc pth l"
    then show "?Q (pth @ [l])" using stepOK_fresh[of b s pc pth l] by simp
  qed
  then consider (plain) "distinct p"
    | (cyclic) pth where "p = pth @ [s]" "distinct pth" "pth \<noteq> []" "hd pth = s"
    by blast
  then show ?thesis
  proof cases
    case plain
    then show ?thesis by simp
  next
    case cyclic
    then obtain rest where pth: "pth = s # rest" by (cases pth) auto
    with cyclic(2) have "s \<notin> set rest" "distinct rest" by simp_all
    then show ?thesis by (simp add: cyclic(1) pth butlast_append)
  qed
qed

lemma straight_snoc:
  fixes pth :: "tile list"
  assumes old: "\<forall>i. 1 \<le> i \<and> Suc i < length pth \<and> isTileOcuppied b (pth ! i) \<longrightarrow>
       getColumn (pth ! Suc i) - getColumn (pth ! i) = getColumn (pth ! i) - getColumn (pth ! (i - 1)) \<and>
       getRow (pth ! Suc i) - getRow (pth ! i) = getRow (pth ! i) - getRow (pth ! (i - 1))"
    and new: "2 \<le> length pth \<Longrightarrow> isTileOcuppied b (last pth) \<Longrightarrow>
       getColumn l - getColumn (last pth) = getColumn (last pth) - getColumn (last (butlast pth)) \<and>
       getRow l - getRow (last pth) = getRow (last pth) - getRow (last (butlast pth))"
  shows "\<forall>i. 1 \<le> i \<and> Suc i < length (pth @ [l]) \<and> isTileOcuppied b ((pth @ [l]) ! i) \<longrightarrow>
       getColumn ((pth @ [l]) ! Suc i) - getColumn ((pth @ [l]) ! i) =
         getColumn ((pth @ [l]) ! i) - getColumn ((pth @ [l]) ! (i - 1)) \<and>
       getRow ((pth @ [l]) ! Suc i) - getRow ((pth @ [l]) ! i) =
         getRow ((pth @ [l]) ! i) - getRow ((pth @ [l]) ! (i - 1))"
proof (intro allI impI)
  fix i
  assume a: "1 \<le> i \<and> Suc i < length (pth @ [l]) \<and> isTileOcuppied b ((pth @ [l]) ! i)"
  then have i: "1 \<le> i" "i < length pth" by simp_all
  have e0: "(pth @ [l]) ! i = pth ! i" using i by (simp add: nth_append)
  have "i - 1 < length pth" using i by arith
  then have e1: "(pth @ [l]) ! (i - 1) = pth ! (i - 1)" by (simp only: nth_append if_True)
  have occ: "isTileOcuppied b (pth ! i)" using a e0 by simp
  show "getColumn ((pth @ [l]) ! Suc i) - getColumn ((pth @ [l]) ! i) =
         getColumn ((pth @ [l]) ! i) - getColumn ((pth @ [l]) ! (i - 1)) \<and>
       getRow ((pth @ [l]) ! Suc i) - getRow ((pth @ [l]) ! i) =
         getRow ((pth @ [l]) ! i) - getRow ((pth @ [l]) ! (i - 1))"
  proof (cases "Suc i < length pth")
    case True
    then have e2: "(pth @ [l]) ! Suc i = pth ! Suc i" by (simp add: nth_append)
    from old i(1) True occ show ?thesis unfolding e0 e1 e2 by blast
  next
    case False
    with i have len: "Suc i = length pth" by simp
    have "2 \<le> length pth" using len i by simp
    then obtain zs y x where pth: "pth = zs @ [y, x]"
    proof (cases pth rule: rev_cases)
      case Nil
      with \<open>2 \<le> length pth\<close> show ?thesis by simp
    next
      case (snoc ys x)
      with \<open>2 \<le> length pth\<close> obtain zs y where "ys = zs @ [y]"
        by (cases ys rule: rev_cases) auto
      with snoc that show ?thesis by simp
    qed
    have ieq: "i = Suc (length zs)" using len pth by simp
    have lastp: "last pth = pth ! i" by (simp add: pth ieq nth_append)
    have prev: "last (butlast pth) = pth ! (i - 1)"
      by (simp add: pth ieq nth_append butlast_append)
    have "2 \<le> length pth" using len i by simp
    moreover have "isTileOcuppied b (last pth)" using occ lastp by simp
    moreover have e2: "(pth @ [l]) ! Suc i = l" using len by (simp add: nth_append)
    ultimately show ?thesis using new unfolding e0 e1 e2 lastp prev by blast
  qed
qed

text \<open>
  C3. A capture continues straight: in a recorded path, the entry after an occupied
  entry at position \<open>i \<ge> 1\<close> lies in the direction of the step from position \<open>i - 1\<close> to
  position \<open>i\<close> (same column delta and same row delta).
\<close>

theorem C3_jump_keeps_direction:
  assumes "p \<in> set (setPathsDFS b s s pc [])"
    and "1 \<le> i" and "i + 1 < length p" and "isTileOcuppied b (p ! i)"
  shows "getColumn (p ! (i + 1)) - getColumn (p ! i) = getColumn (p ! i) - getColumn (p ! (i - 1)) \<and>
         getRow (p ! (i + 1)) - getRow (p ! i) = getRow (p ! i) - getRow (p ! (i - 1))"
proof -
  let ?Q = "\<lambda>pth :: tile list.
     \<forall>i. 1 \<le> i \<and> Suc i < length pth \<and> isTileOcuppied b (pth ! i) \<longrightarrow>
       getColumn (pth ! Suc i) - getColumn (pth ! i) = getColumn (pth ! i) - getColumn (pth ! (i - 1)) \<and>
       getRow (pth ! Suc i) - getRow (pth ! i) = getRow (pth ! i) - getRow (pth ! (i - 1))"
  have "(?Q p \<and> p \<noteq> [] \<and> \<not> isTileOcuppied b (last p)) \<or>
        (\<exists>pth. p = pth @ [s] \<and> ?Q pth \<and> cycleOK b s pc pth)"
  proof (rule setPathsDFS_invariant[OF assms(1), where Q = ?Q])
    show "?Q ([] @ [s])" by simp
  next
    fix pth l
    assume q: "?Q pth" and "pth \<noteq> []" and st: "stepOK b s pc pth l"
    show "?Q (pth @ [l])"
      by (rule straight_snoc[OF q]) (rule stepOK_direction[OF st])
  qed
  then have "?Q p"
  proof
    assume "?Q p \<and> p \<noteq> [] \<and> \<not> isTileOcuppied b (last p)"
    then show ?thesis by blast
  next
    assume "\<exists>pth. p = pth @ [s] \<and> ?Q pth \<and> cycleOK b s pc pth"
    then obtain pth where p: "p = pth @ [s]" and q: "?Q pth" and c: "cycleOK b s pc pth"
      by blast
    show ?thesis unfolding p
      by (rule straight_snoc[OF q]) (rule cycleOK_direction[OF c])
  qed
  then show ?thesis using assms(2,3,4) by simp
qed

section \<open>Evaluating the search on concrete boards\<close>

text \<open>
  The three \<open>forEach\<close> loops of the search as list recursions, so that the simplifier
  unfolds a recursive call only once its landing tile is known.
\<close>

definition stepsFrom :: "board \<Rightarrow> tile \<Rightarrow> piece \<Rightarrow> tile list \<Rightarrow> tile list \<Rightarrow> tile list list" where
  "stepsFrom b s p pth ls = concat (map (\<lambda>landing. setPathsDFS b s landing p pth) ls)"

definition jumpsFrom :: "board \<Rightarrow> tile \<Rightarrow> piece \<Rightarrow> tile list \<Rightarrow> tile list \<Rightarrow> tile list list" where
  "jumpsFrom b s p pth ls =
     concat (map (\<lambda>landing.
       if landing \<notin> set pth then setPathsDFS b s landing p pth
       else if landing = s \<and> length pth > 2 then [pth @ [landing]]
       else []) ls)"

definition enemiesFrom :: "board \<Rightarrow> tile \<Rightarrow> piece \<Rightarrow> tile list \<Rightarrow> tile list \<Rightarrow> tile list list" where
  "enemiesFrom b s p pth es =
     concat (map (\<lambda>enemy. if enemy \<notin> set pth then setPathsDFS b s enemy p pth else []) es)"

lemma stepsFrom_simps:
  "stepsFrom b s p pth [] = []"
  "stepsFrom b s p pth (l # ls) = setPathsDFS b s l p pth @ stepsFrom b s p pth ls"
  by (simp_all add: stepsFrom_def)

lemma jumpsFrom_simps:
  "jumpsFrom b s p pth [] = []"
  "jumpsFrom b s p pth (l # ls) =
     (if l \<notin> set pth then setPathsDFS b s l p pth
      else if l = s \<and> length pth > 2 then [pth @ [l]] else []) @ jumpsFrom b s p pth ls"
  by (simp_all add: jumpsFrom_def)

lemma enemiesFrom_simps:
  "enemiesFrom b s p pth [] = []"
  "enemiesFrom b s p pth (e # es) =
     (if e \<notin> set pth then setPathsDFS b s e p pth else []) @ enemiesFrom b s p pth es"
  by (simp_all add: enemiesFrom_def)

lemma setPathsDFS_eval:
  "setPathsDFS b s f p path0 =
     (if isFirstMove (path0 @ [f]) then
         stepsFrom b s p (path0 @ [f]) (getAdjacentLandings b s f p None None) else []) @
     (if isPotentialCapture b f (path0 @ [f]) then
         jumpsFrom b s p (path0 @ [f]) (getAdjacentLandings b s f p
            (Some (getColumn f - getColumn (last path0)))
            (Some (getRow f - getRow (last path0)))) else []) @
     (if canLookForEnemies b f s (path0 @ [f]) then
         enemiesFrom b s p (path0 @ [f]) (getAdjacentEnemies b f p) else []) @
     (if \<not> isTileOcuppied b f then [path0 @ [f]] else [])"
  unfolding stepsFrom_def jumpsFrom_def enemiesFrom_def
  by (subst setPathsDFS.simps) (simp only: Let_def butlast_snoc last_snoc)

lemmas search_eval = setPathsDFS_eval stepsFrom_simps jumpsFrom_simps enemiesFrom_simps
  getAdjacentLandings_def getAdjacentEnemies_def getTile_eq getDirections_def isQueen_def
  isFirstMove_def isPotentialCapture_def canLookForEnemies_def isTileOcuppied_def
  tileBelongsToPlayer_def getPiece_def getRow_def getColumn_def Let_def

text \<open>
  A board with a blue queen on (2,2) inside a diamond of four red pawns: the queen can
  jump around the diamond in both directions and come back to its own tile.
\<close>

definition cycleBoard :: board where
  "cycleBoard =
     (\<lambda>t. None)((2, 2) := Some (Piece Blue Queen), (3, 3) := Some (Piece Red Pawn),
                 (3, 5) := Some (Piece Red Pawn), (1, 5) := Some (Piece Red Pawn),
                 (1, 3) := Some (Piece Red Pawn))"

lemma cycleBoard_paths:
  "setPathsDFS cycleBoard (2, 2) (2, 2) (Piece Blue Queen) [] =
     [[(2, 2), (3, 1)], [(2, 2), (1, 1)],
      [(2, 2), (3, 3), (4, 4), (3, 5), (2, 6), (1, 5), (0, 4), (1, 3), (2, 2)],
      [(2, 2), (3, 3), (4, 4), (3, 5), (2, 6), (1, 5), (0, 4)],
      [(2, 2), (3, 3), (4, 4), (3, 5), (2, 6)],
      [(2, 2), (3, 3), (4, 4)],
      [(2, 2), (1, 3), (0, 4), (1, 5), (2, 6), (3, 5), (4, 4), (3, 3), (2, 2)],
      [(2, 2), (1, 3), (0, 4), (1, 5), (2, 6), (3, 5), (4, 4)],
      [(2, 2), (1, 3), (0, 4), (1, 5), (2, 6)],
      [(2, 2), (1, 3), (0, 4)]]"
  by (simp add: search_eval cycleBoard_def)

theorem C1_recorded_path_ends_witness:
  "getPiece cycleBoard (2, 2) = Some (Piece Blue Queen) \<and>
   [(2, 2), (3, 3), (4, 4), (3, 5), (2, 6), (1, 5), (0, 4), (1, 3), (2, 2)]
     \<in> set (setPathsDFS cycleBoard (2, 2) (2, 2) (Piece Blue Queen) []) \<and>
   2 < length (butlast [(2, 2), (3, 3), (4, 4), (3, 5), (2, 6), (1, 5), (0, 4), (1, 3), (2 :: int, 2 :: int)]) \<and>
   [(2, 2), (3, 3), (4, 4)] \<in> set (setPathsDFS cycleBoard (2, 2) (2, 2) (Piece Blue Queen) []) \<and>
   \<not> isTileOcuppied cycleBoard (4, 4)"
proof -
  have h: "getPiece cycleBoard (2, 2) = Some (Piece Blue Queen)"
    by (simp add: getPiece_def cycleBoard_def)
  have m1: "[(2, 2), (3, 3), (4, 4), (3, 5), (2, 6), (1, 5), (0, 4), (1, 3), (2, 2)]
     \<in> set (setPathsDFS cycleBoard (2, 2) (2, 2) (Piece Blue Queen) [])"
    by (simp add: cycleBoard_paths)
  have m2: "[(2, 2), (3, 3), (4, 4)]
     \<in> set (setPathsDFS cycleBoard (2, 2) (2, 2) (Piece Blue Queen) [])"
    by (simp add: cycleBoard_paths)
  show ?thesis
    using h m1 m2 C1_recorded_path_ends[OF h m1] C1_recorded_path_ends[OF h m2]
    by simp
qed

theorem C2_recorded_path_distinct_witness:
  "[(2, 2), (3, 3), (4, 4), (3, 5), (2, 6), (1, 5), (0, 4), (1, 3), (2, 2)]
     \<in> set (setPathsDFS cycleBoard (2, 2) (2, 2) (Piece Blue Queen) []) \<and>
   distinct (butlast [(2, 2), (3, 3), (4, 4), (3, 5), (2, 6), (1, 5), (0, 4), (1, 3), (2 :: int, 2 :: int)]) \<and>
   distinct (tl [(2, 2), (3, 3), (4, 4), (3, 5), (2, 6), (1, 5), (0, 4), (1, 3), (2 :: int, 2 :: int)])"
proof -
  have m1: "[(2, 2), (3, 3), (4, 4), (3, 5), (2, 6), (1, 5), (0, 4), (1, 3), (2, 2)]
     \<in> set (setPathsDFS cycleBoard (2, 2) (2, 2) (Piece Blue Queen) [])"
    by (simp add: cycleBoard_paths)
  show ?thesis
    using m1 C2_recorded_path_distinct[OF m1] by simp
qed

theorem C3_jump_keeps_direction_witness:
  "[(2, 2), (3, 3), (4, 4), (3, 5), (2, 6)]
     \<in> set (setPathsDFS cycleBoard (2, 2) (2, 2) (Piece Blue Queen) []) \<and>
   isTileOcuppied cycleBoard ([(2, 2), (3, 3), (4, 4), (3, 5), (2, 6)] ! 3) \<and>
   getColumn ([(2, 2), (3, 3), (4, 4), (3, 5), (2, 6)] ! 4) - getColumn ([(2, 2), (3, 3), (4, 4), (3, 5), (2, 6)] ! 3) = 1 \<and>
   getRow ([(2, 2), (3, 3), (4, 4), (3, 5), (2, 6)] ! 4) - getRow ([(2, 2), (3, 3), (4, 4), (3, 5), (2, 6)] ! 3) = - 1"
proof -
  have m1: "[(2, 2), (3, 3), (4, 4), (3, 5), (2, 6)]
     \<in> set (setPathsDFS cycleBoard (2, 2) (2, 2) (Piece Blue Queen) [])"
    by (simp add: cycleBoard_paths)
  have o: "isTileOcuppied cycleBoard ([(2, 2), (3, 3), (4, 4), (3, 5), (2, 6)] ! 3)"
    by (simp add: isTileOcuppied_def getPiece_def cycleBoard_def)
  have "(1 :: nat) \<le> 3" "3 + 1 < length [(2, 2), (3, 3), (4, 4), (3, 5), (2 :: int, 6 :: int)]"
    by simp_all
  from C3_jump_keeps_direction[OF m1 this o] m1 o show ?thesis
    by (simp add: getRow_def getColumn_def)
qed

section \<open>The shape of recorded paths\<close>

text \<open>A tile holding a piece of the opponent of the moving piece.\<close>

definition enemyTile :: "board \<Rightarrow> piece \<Rightarrow> tile \<Rightarrow> bool" where
  "enemyTile b pc t \<longleftrightarrow> isTileOcuppied b t \<and> \<not> tileBelongsToPlayer b t (getOwner pc)"

text \<open>After the source, jumped enemy tiles (odd positions) and empty landings alternate.\<close>

definition alternating :: "board \<Rightarrow> piece \<Rightarrow> tile list \<Rightarrow> bool" where
  "alternating b pc pth \<longleftrightarrow>
     (\<forall>i. 0 < i \<and> i < length pth \<longrightarrow>
        (if odd i then enemyTile b pc (pth ! i) else \<not> isTileOcuppied b (pth ! i)))"

lemma alternating_snoc:
  assumes "alternating b pc pth"
    and "if odd (length pth) then enemyTile b pc l else \<not> isTileOcuppied b l"
  shows "alternating b pc (pth @ [l])"
  unfolding alternating_def
proof (intro allI impI)
  fix i
  assume i: "0 < i \<and> i < length (pth @ [l])"
  show "if odd i then enemyTile b pc ((pth @ [l]) ! i)
        else \<not> isTileOcuppied b ((pth @ [l]) ! i)"
  proof (cases "i < length pth")
    case True
    then have "(pth @ [l]) ! i = pth ! i" by (simp add: nth_append)
    with assms(1) i True show ?thesis unfolding alternating_def by simp
  next
    case False
    with i have "i = length pth" by simp
    with assms(2) show ?thesis by simp
  qed
qed

lemma alternating_last:
  assumes "alternating b pc pth" "1 < length pth"
  shows "isTileOcuppied b (last pth) \<longleftrightarrow> even (length pth)"
proof -
  from assms(2) have ne: "pth \<noteq> []" by auto
  let ?i = "length pth - 1"
  have l: "last pth = pth ! ?i" using ne by (rule last_conv_nth)
  have "0 < ?i" "?i < length pth" using assms(2) by simp_all
  with assms(1) have "if odd ?i then enemyTile b pc (pth ! ?i) else \<not> isTileOcuppied b (pth ! ?i)"
    unfolding alternating_def by blast
  moreover have "odd ?i \<longleftrightarrow> even (length pth)" using assms(2) by (cases "length pth") auto
  ultimately show ?thesis unfolding l by (auto simp: enemyTile_def)
qed

definition walkShape :: "board \<Rightarrow> tile \<Rightarrow> piece \<Rightarrow> tile list \<Rightarrow> bool" where
  "walkShape b s pc pth \<longleftrightarrow>
     pth \<noteq> [] \<and> hd pth = s \<and>
     ((length pth = 2 \<and> \<not> isTileOcuppied b (pth ! 1)) \<or> alternating b pc pth)"

lemma walkShape_start: "walkShape b s pc ([] @ [s])"
  by (simp add: walkShape_def alternating_def)

lemma walkShape_step:
  assumes w: "walkShape b s pc pth" and st: "stepOK b s pc pth l"
  shows "walkShape b s pc (pth @ [l])"
proof -
  from w have ne: "pth \<noteq> []" and hd: "hd pth = s" by (simp_all add: walkShape_def)
  have fresh: "l \<notin> set pth" using stepOK_fresh[OF st ne] .
  have s_in: "s \<in> set pth" using ne hd by (cases pth) auto
  from st consider
      (first) "isFirstMove pth" "l \<in> set (getAdjacentLandings b s (last pth) pc None None)"
    | (jump) "isPotentialCapture b (last pth) pth"
        "l \<in> set (getAdjacentLandings b s (last pth) pc
                 (Some (getColumn (last pth) - getColumn (last (butlast pth))))
                 (Some (getRow (last pth) - getRow (last (butlast pth)))))"
    | (enemy) "canLookForEnemies b (last pth) s pth" "l \<in> set (getAdjacentEnemies b (last pth) pc)"
    unfolding stepOK_def by blast
  then show ?thesis
  proof cases
    case first
    then have len: "length pth = 1" by (simp add: isFirstMove_def)
    from first(2) have "\<not> isTileOcuppied b l \<or> l = s"
      unfolding in_getAdjacentLandings by blast
    with fresh s_in have "\<not> isTileOcuppied b l" by blast
    then show ?thesis using ne hd len by (simp add: walkShape_def nth_append)
  next
    case jump
    then have occ: "isTileOcuppied b (last pth)" and len: "1 < length pth"
      by (simp_all add: isPotentialCapture_def)
    from jump(2) have "\<not> isTileOcuppied b l \<or> l = s"
      unfolding in_getAdjacentLandings by blast
    with fresh s_in have free: "\<not> isTileOcuppied b l" by blast
    have alt: "alternating b pc pth"
    proof -
      have "\<not> (length pth = 2 \<and> \<not> isTileOcuppied b (pth ! 1))"
      proof
        assume a: "length pth = 2 \<and> \<not> isTileOcuppied b (pth ! 1)"
        then have "last pth = pth ! 1" using ne by (simp add: last_conv_nth)
        with a occ show False by simp
      qed
      with w show ?thesis by (auto simp: walkShape_def)
    qed
    have "even (length pth)" using alternating_last[OF alt len] occ by simp
    then have "alternating b pc (pth @ [l])" using free by (intro alternating_snoc[OF alt]) simp
    then show ?thesis using ne hd by (simp add: walkShape_def)
  next
    case enemy
    from enemy(2) have en: "enemyTile b pc l"
      unfolding in_getAdjacentEnemies enemyTile_def by blast
    from enemy(1) consider (start) "length pth = 1"
      | (chain) "\<not> isTileOcuppied b (last pth)" "2 < length pth"
      unfolding canLookForEnemies_def by blast
    then show ?thesis
    proof cases
      case start
      then have "alternating b pc pth" by (simp add: alternating_def)
      then have "alternating b pc (pth @ [l])" using en start
        by (intro alternating_snoc) simp_all
      then show ?thesis using ne hd by (simp add: walkShape_def)
    next
      case chain
      with w have alt: "alternating b pc pth" by (auto simp: walkShape_def)
      have "odd (length pth)" using alternating_last[OF alt] chain by simp
      then have "alternating b pc (pth @ [l])" using en
        by (intro alternating_snoc[OF alt]) simp
      then show ?thesis using ne hd by (simp add: walkShape_def)
    qed
  qed
qed

lemma recorded_walkShape:
  assumes "p \<in> set (setPathsDFS b s s pc [])"
  shows "(walkShape b s pc p \<and> \<not> isTileOcuppied b (last p)) \<or>
         (\<exists>pth. p = pth @ [s] \<and> walkShape b s pc pth \<and> alternating b pc pth \<and>
                isTileOcuppied b (last pth) \<and> 2 < length pth)"
proof -
  have "(walkShape b s pc p \<and> p \<noteq> [] \<and> \<not> isTileOcuppied b (last p)) \<or>
        (\<exists>pth. p = pth @ [s] \<and> walkShape b s pc pth \<and> cycleOK b s pc pth)"
    by (rule setPathsDFS_invariant[OF assms, where Q = "walkShape b s pc"])
       (rule walkShape_start, rule walkShape_step)
  then show ?thesis
    by (auto simp: cycleOK_def isPotentialCapture_def walkShape_def)
qed

text \<open>
  On a path recorded for the piece on the source, the tiles held by the opponent are
  exactly the entries at odd positions before the last entry.
\<close>

lemma recorded_enemy_positions:
  assumes src: "getPiece b s = Some pc"
    and rec: "p \<in> set (setPathsDFS b s s pc [])"
    and i: "i < length p"
  shows "enemyTile b pc (p ! i) \<longleftrightarrow> odd i \<and> i + 1 < length p"
proof -
  have own: "\<not> enemyTile b pc s"
    using src by (simp add: enemyTile_def tileBelongsToPlayer_def)
  from recorded_walkShape[OF rec] show ?thesis
  proof (elim disjE exE conjE)
    assume w: "walkShape b s pc p" and free: "\<not> isTileOcuppied b (last p)"
    then have ne: "p \<noteq> []" and hd: "hd p = s" by (simp_all add: walkShape_def)
    have p0: "p ! 0 = s" using ne hd by (cases p) auto
    have lastp: "last p = p ! (length p - 1)" using ne by (rule last_conv_nth)
    from w consider (two) "length p = 2" "\<not> isTileOcuppied b (p ! 1)"
      | (alt) "alternating b pc p"
      by (auto simp: walkShape_def)
    then show ?thesis
    proof cases
      case two
      with i have "i = 0 \<or> i = 1" by auto
      then show ?thesis using two p0 own by (auto simp: enemyTile_def)
    next
      case alt
      show ?thesis
      proof (cases "i = 0")
        case True
        then show ?thesis using p0 own by simp
      next
        case False
        with alt i have *: "if odd i then enemyTile b pc (p ! i) else \<not> isTileOcuppied b (p ! i)"
          unfolding alternating_def by simp
        show ?thesis
        proof (cases "odd i")
          case True
          with * have en: "enemyTile b pc (p ! i)" by simp
          have "i \<noteq> length p - 1" using en free lastp by (auto simp: enemyTile_def)
          with i have "i + 1 < length p" by simp
          with True en show ?thesis by simp
        next
          case False
          with * show ?thesis by (simp add: enemyTile_def)
        qed
      qed
    qed
  next
    fix pth
    assume p: "p = pth @ [s]" and w: "walkShape b s pc pth" and alt: "alternating b pc pth"
      and len: "2 < length pth"
    from w have ne: "pth \<noteq> []" and hd: "hd pth = s" by (simp_all add: walkShape_def)
    have p0: "pth ! 0 = s" using ne hd by (cases pth) auto
    show ?thesis
    proof (cases "i < length pth")
      case True
      then have pi: "p ! i = pth ! i" by (simp add: p nth_append)
      show ?thesis
      proof (cases "i = 0")
        case True
        then show ?thesis using pi p0 own by simp
      next
        case False
        with alt True have "if odd i then enemyTile b pc (pth ! i) else \<not> isTileOcuppied b (pth ! i)"
          unfolding alternating_def by simp
        then show ?thesis using True pi by (auto simp: p enemyTile_def)
      qed
    next
      case False
      with i have "i = length pth" by (simp add: p)
      then show ?thesis using own by (simp add: p)
    qed
  qed
qed

lemma recorded_captures_iff:
  assumes src: "getPiece b s = Some pc"
    and rec: "p \<in> set (setPathsDFS b s s pc [])"
  shows "getCapturesForPath b p (getOwner pc) \<noteq> [] \<longleftrightarrow> 2 < length p"
proof
  assume "getCapturesForPath b p (getOwner pc) \<noteq> []"
  then obtain t where "t \<in> set p" "enemyTile b pc t"
    unfolding getCapturesForPath_def enemyTile_def filter_empty_conv by blast
  then obtain i where "i < length p" "enemyTile b pc (p ! i)"
    by (auto simp: in_set_conv_nth)
  with recorded_enemy_positions[OF src rec] have "odd i" "i + 1 < length p" by blast+
  then show "2 < length p" by (cases i) auto
next
  assume len: "2 < length p"
  then have "enemyTile b pc (p ! 1)"
    using recorded_enemy_positions[OF src rec, of 1] by simp
  moreover have "p ! 1 \<in> set p" using len by simp
  ultimately show "getCapturesForPath b p (getOwner pc) \<noteq> []"
    unfolding getCapturesForPath_def enemyTile_def filter_empty_conv by blast
qed

section \<open>What source selection computes\<close>

definition emptyMove :: Move where
  "emptyMove = \<lparr>move_from = None, move_to = None, possiblePaths = [], validDestinations = []\<rparr>"

text \<open>The destinations \<open>setValidDestinations\<close> builds from the paths of the piece on a tile.\<close>

definition destinationsFrom ::
  "variant \<Rightarrow> board \<Rightarrow> tile \<Rightarrow> piece \<Rightarrow> player \<Rightarrow> ValidDestination list" where
  "destinationsFrom v b t pc pl =
     map (\<lambda>pth. \<lparr>path = pth, destination = last pth, captures = getCapturesForPath b pth pl\<rparr>)
       (validPaths v (setPathsDFS b t t pc []))"

definition destinationsAt :: "variant \<Rightarrow> board \<Rightarrow> tile \<Rightarrow> player \<Rightarrow> ValidDestination list" where
  "destinationsAt v b t pl =
     (case getPiece b t of None \<Rightarrow> [] | Some pc \<Rightarrow> destinationsFrom v b t pc pl)"

text \<open>The move scratch state after \<open>setFrom\<close> on a reset move.\<close>

definition pendingMove :: "variant \<Rightarrow> board \<Rightarrow> tile \<Rightarrow> piece \<Rightarrow> player \<Rightarrow> Move" where
  "pendingMove v b t pc pl =
     \<lparr>move_from = Some t, move_to = None, possiblePaths = setPathsDFS b t t pc [],
      validDestinations = destinationsFrom v b t pc pl\<rparr>"

text \<open>The piece on a tile has a capturing path: a recorded path with more than two entries.\<close>

definition hasCapturingPath :: "board \<Rightarrow> tile \<Rightarrow> bool" where
  "hasCapturingPath b t =
     (case getPiece b t of
        None \<Rightarrow> False
      | Some pc \<Rightarrow> list_ex (\<lambda>pth. 2 < length pth) (setPathsDFS b t t pc []))"

text \<open>Some piece of the player has a capturing path.\<close>

definition playerCanCapture :: "board \<Rightarrow> player \<Rightarrow> bool" where
  "playerCanCapture b pl =
     list_ex (\<lambda>t. tileBelongsToPlayer b t pl \<and> hasCapturingPath b t) getTiles"

lemma resetMove_eq: "resetMove gs = gs\<lparr>move := emptyMove\<rparr>"
  by (cases gs, cases "move gs") (simp add: resetMove_def emptyMove_def)

lemma resetMove_fields [simp]:
  "board (resetMove gs) = board gs" "status (resetMove gs) = status gs"
  "winner (resetMove gs) = winner gs" "activePlayer (resetMove gs) = activePlayer gs"
  "move (resetMove gs) = emptyMove"
  by (simp_all add: resetMove_eq)

lemma resetMove_idem: "move gs = emptyMove \<Longrightarrow> resetMove gs = gs"
  by (simp add: resetMove_eq)

lemma setFrom_emptyMove:
  assumes "getPiece (board gs) t = Some pc" "move gs = emptyMove"
  shows "setFrom v gs t pl = Inr (gs\<lparr>move := pendingMove v (board gs) t pc pl\<rparr>)"
  using assms
  by (simp add: setFrom_def runSetPathsDFS_def setValidDestinations_def pendingMove_def
      destinationsFrom_def emptyMove_def Let_def)

lemma simulateFroms_eq:
  assumes "\<forall>f \<in> set fs. getPiece (board gs) f \<noteq> None" and "move gs = emptyMove"
  shows "simulateFroms gs pl fs fc fd =
     Inr (gs,
          fc @ filter (\<lambda>f. list_ex (\<lambda>vd. length (captures vd) > 0)
                              (destinationsAt BonusGame (board gs) f pl)) fs,
          fd @ filter (\<lambda>f. length (destinationsAt BonusGame (board gs) f pl) > 0) fs)"
  using assms(1)
proof (induction fs arbitrary: fc fd)
  case Nil
  then show ?case by simp
next
  case (Cons f fs)
  then obtain pc where pc: "getPiece (board gs) f = Some pc" by auto
  let ?gs3 = "gs\<lparr>move := pendingMove BonusGame (board gs) f pc pl\<rparr>"
  have step: "setValidDestinations BonusGame
        (runSetPathsDFS (gs\<lparr>move := (move gs)\<lparr>move_from := Some f\<rparr>\<rparr>) f f pc) pl = ?gs3"
    using assms(2)
    by (simp add: runSetPathsDFS_def setValidDestinations_def pendingMove_def
        destinationsFrom_def emptyMove_def)
  have rst: "resetMove ?gs3 = gs" using assms(2) by (simp add: resetMove_eq)
  have vds: "validDestinations (move ?gs3) = destinationsAt BonusGame (board gs) f pl"
    by (simp add: pendingMove_def destinationsAt_def pc)
  have rest: "\<forall>f \<in> set fs. getPiece (board gs) f \<noteq> None" using Cons.prems by simp
  have "simulateFroms gs pl (f # fs) fc fd =
      simulateFroms (resetMove ?gs3) pl fs
        (if list_ex (\<lambda>vd. length (captures vd) > 0) (validDestinations (move ?gs3))
         then fc @ [f] else fc)
        (if length (validDestinations (move ?gs3)) > 0 then fd @ [f] else fd)"
    by (simp only: simulateFroms.simps pc option.case Let_def step)
  also have "\<dots> = simulateFroms gs pl fs
        (if list_ex (\<lambda>vd. length (captures vd) > 0) (destinationsAt BonusGame (board gs) f pl)
         then fc @ [f] else fc)
        (if length (destinationsAt BonusGame (board gs) f pl) > 0 then fd @ [f] else fd)"
    by (simp only: rst vds)
  finally show ?case
    by (simp only: Cons.IH[OF rest]) simp
qed

lemma validPaths_Bonus_Nil: "validPaths BonusGame paths = [] \<longleftrightarrow> paths = []"
  by (auto simp: validPaths_def list_ex_iff filter_empty_conv)

lemma bonus_capture_destination_iff:
  assumes src: "getPiece b t = Some pc" and own: "getOwner pc = pl"
  shows "list_ex (\<lambda>vd. length (captures vd) > 0) (destinationsFrom BonusGame b t pc pl) \<longleftrightarrow>
         list_ex (\<lambda>pth. 2 < length pth) (setPathsDFS b t t pc [])"
proof -
  let ?paths = "setPathsDFS b t t pc []"
  have cap: "\<And>pth. pth \<in> set ?paths \<Longrightarrow> getCapturesForPath b pth pl \<noteq> [] \<longleftrightarrow> 2 < length pth"
    using recorded_captures_iff[OF src] own by simp
  have sub: "set (validPaths BonusGame ?paths) \<subseteq> set ?paths"
    by (auto simp: validPaths_def)
  show ?thesis
  proof
    assume "list_ex (\<lambda>vd. length (captures vd) > 0) (destinationsFrom BonusGame b t pc pl)"
    then obtain pth where "pth \<in> set (validPaths BonusGame ?paths)"
        "getCapturesForPath b pth pl \<noteq> []"
      by (auto simp: destinationsFrom_def list_ex_iff)
    with sub cap show "list_ex (\<lambda>pth. 2 < length pth) ?paths"
      unfolding list_ex_iff by blast
  next
    assume long: "list_ex (\<lambda>pth. 2 < length pth) ?paths"
    then obtain pth where pth: "pth \<in> set ?paths" "2 < length pth"
      unfolding list_ex_iff by blast
    with long have "pth \<in> set (validPaths BonusGame ?paths)"
      by (simp add: validPaths_def)
    moreover have "getCapturesForPath b pth pl \<noteq> []" using cap pth by simp
    ultimately show "list_ex (\<lambda>vd. length (captures vd) > 0) (destinationsFrom BonusGame b t pc pl)"
      by (auto simp: destinationsFrom_def list_ex_iff)
  qed
qed

lemma bonus_capture_destinationsAt_iff:
  assumes "tileBelongsToPlayer b t pl"
  shows "list_ex (\<lambda>vd. length (captures vd) > 0) (destinationsAt BonusGame b t pl) \<longleftrightarrow>
         hasCapturingPath b t"
proof -
  from assms obtain pc where "getPiece b t = Some pc" "getOwner pc = pl"
    by (auto simp: tileBelongsToPlayer_def)
  then show ?thesis
    using bonus_capture_destination_iff[of b t pc pl]
    by (simp add: destinationsAt_def hasCapturingPath_def)
qed

lemma isFromValid_Bonus:
  assumes "tileBelongsToPlayer (board gs) t pl" and "t \<in> set getTiles"
  shows "isFromValid BonusGame gs t pl =
     Inr (if playerCanCapture (board gs) pl then hasCapturingPath (board gs) t
          else destinationsAt BonusGame (board gs) t pl \<noteq> [],
          resetMove gs)"
proof -
  let ?b = "board gs"
  let ?froms = "filter (\<lambda>t'. map_option getOwner (getPiece ?b t') = Some pl) getTiles"
  let ?cap = "\<lambda>f. list_ex (\<lambda>vd. length (captures vd) > 0) (destinationsAt BonusGame ?b f pl)"
  let ?dst = "\<lambda>f. length (destinationsAt BonusGame ?b f pl) > 0"
  have occ: "\<forall>f \<in> set ?froms. getPiece (board (resetMove gs)) f \<noteq> None" by auto
  have sim: "simulateFroms (resetMove gs) pl ?froms [] [] =
      Inr (resetMove gs, filter ?cap ?froms, filter ?dst ?froms)"
    using simulateFroms_eq[OF occ, of pl "[]" "[]"] by simp
  have t_in: "t \<in> set ?froms" using assms by (simp add: tileBelongsToPlayer_def)
  have capset: "\<And>f. f \<in> set ?froms \<Longrightarrow> ?cap f \<longleftrightarrow> hasCapturingPath ?b f"
    by (rule bonus_capture_destinationsAt_iff) (simp add: tileBelongsToPlayer_def)
  have "(\<exists>f \<in> set ?froms. ?cap f) \<longleftrightarrow> (\<exists>f \<in> set ?froms. hasCapturingPath ?b f)"
    using capset by blast
  also have "\<dots> \<longleftrightarrow> playerCanCapture ?b pl"
    unfolding playerCanCapture_def list_ex_iff tileBelongsToPlayer_def by auto
  finally have "(\<exists>f \<in> set ?froms. ?cap f) \<longleftrightarrow> playerCanCapture ?b pl" .
  then have ex: "filter ?cap ?froms = [] \<longleftrightarrow> \<not> playerCanCapture ?b pl"
    unfolding filter_empty_conv by blast
  have "isFromValid BonusGame gs t pl =
      (case simulateFroms (resetMove gs) pl
              (filter (\<lambda>t'. map_option getOwner (getPiece (board (resetMove gs)) t') = Some pl)
                 getTiles) [] [] of
         Inl e \<Rightarrow> Inl e
       | Inr (gs1, fromsWithCaptures, fromsWithDestinations) \<Rightarrow>
           (if length fromsWithCaptures = 0
            then Inr (t \<in> set fromsWithDestinations, gs1)
            else Inr (t \<in> set fromsWithCaptures, gs1)))"
    by (simp only: isFromValid_def variant.case assms(1) if_True Let_def)
  also have "\<dots> =
      (if filter ?cap ?froms = [] then Inr (t \<in> set (filter ?dst ?froms), resetMove gs)
       else Inr (t \<in> set (filter ?cap ?froms), resetMove gs))"
    unfolding resetMove_fields(1) sim by simp
  also have "\<dots> = Inr (if playerCanCapture ?b pl then hasCapturingPath ?b t
          else destinationsAt BonusGame ?b t pl \<noteq> [], resetMove gs)"
    using ex t_in capset[OF t_in] by auto
  finally show ?thesis .
qed

lemma isFromValid_Base:
  assumes "tileBelongsToPlayer (board gs) t pl"
  shows "isFromValid BaseGame gs t pl =
     Inr (destinationsAt BaseGame (board gs) t pl \<noteq> [], resetMove gs)"
proof -
  from assms obtain pc where pc: "getPiece (board gs) t = Some pc"
    by (auto simp: tileBelongsToPlayer_def)
  let ?gs3 = "(resetMove gs)\<lparr>move := pendingMove BaseGame (board gs) t pc pl\<rparr>"
  have step: "setValidDestinations BaseGame
        (runSetPathsDFS ((resetMove gs)\<lparr>move := (move (resetMove gs))\<lparr>move_from := Some t\<rparr>\<rparr>) t t pc) pl = ?gs3"
    by (simp add: runSetPathsDFS_def setValidDestinations_def pendingMove_def
        destinationsFrom_def emptyMove_def)
  have rst: "resetMove ?gs3 = resetMove gs" by (simp add: resetMove_eq)
  have vds: "validDestinations (move ?gs3) = destinationsAt BaseGame (board gs) t pl"
    by (simp add: pendingMove_def destinationsAt_def pc)
  have "isFromValid BaseGame gs t pl =
      Inr (length (validDestinations (move ?gs3)) \<noteq> 0, resetMove ?gs3)"
    by (simp only: isFromValid_def variant.case assms if_True Let_def resetMove_fields(1) pc
        option.case step)
  then show ?thesis
    by (simp only: rst vds) simp
qed

lemma isFromValid_not_own:
  "\<not> tileBelongsToPlayer (board gs) t pl \<Longrightarrow> isFromValid v gs t pl = Inr (False, gs)"
  by (cases v) (simp_all add: isFromValid_def)

text \<open>A game on the diamond board with blue to move and no move pending.\<close>

definition cycleStart :: GameState where
  "cycleStart =
     \<lparr>board = cycleBoard, status = Active, winner = None, move = emptyMove,
      activePlayer = Blue\<rparr>"

text \<open>The piece on a tile has at least one recorded path.\<close>

definition hasAnyPath :: "board \<Rightarrow> tile \<Rightarrow> bool" where
  "hasAnyPath b t =
     (case getPiece b t of
        None \<Rightarrow> False
      | Some pc \<Rightarrow> setPathsDFS b t t pc [] \<noteq> [])"

text \<open>
  C4. In the forced variant (\<open>BonusGame\<close>), for a board tile \<open>t\<close>: when some piece of the
  player has a path longer than 2, \<open>isFromValid\<close> accepts \<open>t\<close> exactly when it is a tile
  of the player whose piece has such a path, and after \<open>setFrom\<close> the valid destinations
  are the paths of the search that are longer than 2 (so every one of them is longer
  than 2). When no piece of the player has such a path, \<open>isFromValid\<close> accepts \<open>t\<close>
  exactly when it is a tile of the player whose piece has a path, and for every tile of
  the player \<open>setFrom\<close> keeps all the paths of the search as destinations, the simple
  steps of length 2 included.
\<close>

theorem C4_forced_capture_selection:
  assumes "t \<in> set getTiles"
  shows "\<exists>ok gs1. isFromValid BonusGame gs t pl = Inr (ok, gs1) \<and>
     (if playerCanCapture (board gs) pl then
        (ok \<longleftrightarrow> tileBelongsToPlayer (board gs) t pl \<and> hasCapturingPath (board gs) t) \<and>
        (ok \<longrightarrow> (\<exists>gs2. setFrom BonusGame gs1 t pl = Inr gs2 \<and>
                  validDestinations (move gs2) \<noteq> [] \<and>
                  (\<forall>vd \<in> set (validDestinations (move gs2)). 2 < length (path vd)))) \<and>
        (ok \<longrightarrow> (\<exists>gs2 pc. getPiece (board gs) t = Some pc \<and>
                  setFrom BonusGame gs1 t pl = Inr gs2 \<and>
                  map path (validDestinations (move gs2)) =
                    filter (\<lambda>pth. 2 < length pth) (setPathsDFS (board gs) t t pc [])))
      else
        (ok \<longleftrightarrow> tileBelongsToPlayer (board gs) t pl \<and> hasAnyPath (board gs) t) \<and>
        (tileBelongsToPlayer (board gs) t pl \<longrightarrow>
           (\<exists>gs2 pc. getPiece (board gs) t = Some pc \<and>
              setFrom BonusGame gs1 t pl = Inr gs2 \<and>
              map path (validDestinations (move gs2)) = setPathsDFS (board gs) t t pc [])))"
proof (cases "tileBelongsToPlayer (board gs) t pl")
  case False
  then show ?thesis
    by (intro exI[of _ False] exI[of _ gs]) (simp add: isFromValid_not_own)
next
  case True
  let ?b = "board gs"
  from True obtain pc where pc: "getPiece ?b t = Some pc"
    by (auto simp: tileBelongsToPlayer_def)
  let ?paths = "setPathsDFS ?b t t pc []"
  have sf: "setFrom BonusGame (resetMove gs) t pl =
      Inr ((resetMove gs)\<lparr>move := pendingMove BonusGame ?b t pc pl\<rparr>)"
    using setFrom_emptyMove[of "resetMove gs" t pc BonusGame pl] pc by simp
  have vds: "validDestinations (move ((resetMove gs)\<lparr>move := pendingMove BonusGame ?b t pc pl\<rparr>)) =
      destinationsFrom BonusGame ?b t pc pl"
    by (simp add: pendingMove_def)
  have paths: "map path (destinationsFrom BonusGame ?b t pc pl) = validPaths BonusGame ?paths"
    by (simp add: destinationsFrom_def comp_def)
  have cap: "hasCapturingPath ?b t \<longleftrightarrow> list_ex (\<lambda>pth. 2 < length pth) ?paths"
    by (simp add: hasCapturingPath_def pc)
  have at: "destinationsAt BonusGame ?b t pl = destinationsFrom BonusGame ?b t pc pl"
    by (simp add: destinationsAt_def pc)
  let ?gs2 = "(resetMove gs)\<lparr>move := pendingMove BonusGame ?b t pc pl\<rparr>"
  show ?thesis
  proof (cases "playerCanCapture ?b pl")
    case can: True
    have iv: "isFromValid BonusGame gs t pl = Inr (hasCapturingPath ?b t, resetMove gs)"
      using isFromValid_Bonus[OF True assms] can by simp
    have dests: "validDestinations (move ?gs2) \<noteq> [] \<and>
        (\<forall>vd \<in> set (validDestinations (move ?gs2)). 2 < length (path vd)) \<and>
        map path (validDestinations (move ?gs2)) = filter (\<lambda>pth. 2 < length pth) ?paths"
      if h: "hasCapturingPath ?b t"
    proof -
      from h have long: "list_ex (\<lambda>pth. 2 < length pth) ?paths" using cap by simp
      then have vp: "validPaths BonusGame ?paths = filter (\<lambda>pth. 2 < length pth) ?paths"
        by (simp add: validPaths_def)
      have ne: "filter (\<lambda>pth. 2 < length pth) ?paths \<noteq> []"
        using long unfolding filter_empty_conv list_ex_iff by blast
      have m: "map path (validDestinations (move ?gs2)) = filter (\<lambda>pth. 2 < length pth) ?paths"
        unfolding vds paths vp ..
      have "validDestinations (move ?gs2) \<noteq> []"
        using m ne by auto
      moreover have "\<forall>vd \<in> set (validDestinations (move ?gs2)). 2 < length (path vd)"
      proof
        fix vd assume "vd \<in> set (validDestinations (move ?gs2))"
        then have "path vd \<in> set (map path (validDestinations (move ?gs2)))" by simp
        then show "2 < length (path vd)" unfolding m by simp
      qed
      ultimately show ?thesis using m by blast
    qed
    show ?thesis
    proof (intro exI[of _ "hasCapturingPath ?b t"] exI[of _ "resetMove gs"] conjI)
      show "isFromValid BonusGame gs t pl = Inr (hasCapturingPath ?b t, resetMove gs)"
        by (rule iv)
      show "if playerCanCapture ?b pl then
        (hasCapturingPath ?b t \<longleftrightarrow> tileBelongsToPlayer ?b t pl \<and> hasCapturingPath ?b t) \<and>
        (hasCapturingPath ?b t \<longrightarrow> (\<exists>gs2. setFrom BonusGame (resetMove gs) t pl = Inr gs2 \<and>
                  validDestinations (move gs2) \<noteq> [] \<and>
                  (\<forall>vd \<in> set (validDestinations (move gs2)). 2 < length (path vd)))) \<and>
        (hasCapturingPath ?b t \<longrightarrow> (\<exists>gs2 pc. getPiece ?b t = Some pc \<and>
                  setFrom BonusGame (resetMove gs) t pl = Inr gs2 \<and>
                  map path (validDestinations (move gs2)) =
                    filter (\<lambda>pth. 2 < length pth) (setPathsDFS ?b t t pc [])))
      else
        (hasCapturingPath ?b t \<longleftrightarrow> tileBelongsToPlayer ?b t pl \<and> hasAnyPath ?b t) \<and>
        (tileBelongsToPlayer ?b t pl \<longrightarrow>
           (\<exists>gs2 pc. getPiece ?b t = Some pc \<and>
              setFrom BonusGame (resetMove gs) t pl = Inr gs2 \<and>
              map path (validDestinations (move gs2)) = setPathsDFS ?b t t pc []))"
        using can True dests sf pc by (simp only: if_True) blast
    qed
  next
    case cannot: False
    have iv: "isFromValid BonusGame gs t pl =
        Inr (destinationsAt BonusGame ?b t pl \<noteq> [], resetMove gs)"
      using isFromValid_Bonus[OF True assms] cannot by simp
    have "\<not> hasCapturingPath ?b t"
      using cannot True assms unfolding playerCanCapture_def list_ex_iff by blast
    then have vp: "validPaths BonusGame ?paths = ?paths"
      using cap by (simp add: validPaths_def)
    have m: "map path (validDestinations (move ?gs2)) = ?paths"
      unfolding vds paths vp ..
    have "destinationsAt BonusGame ?b t pl = [] \<longleftrightarrow> ?paths = []"
      unfolding at destinationsFrom_def vp by simp
    then have acc: "destinationsAt BonusGame ?b t pl \<noteq> [] \<longleftrightarrow> hasAnyPath ?b t"
      by (simp add: hasAnyPath_def pc)
    show ?thesis
    proof (intro exI[of _ "hasAnyPath ?b t"] exI[of _ "resetMove gs"] conjI)
      show "isFromValid BonusGame gs t pl = Inr (hasAnyPath ?b t, resetMove gs)"
        using iv acc by simp
      show "if playerCanCapture ?b pl then
        (hasAnyPath ?b t \<longleftrightarrow> tileBelongsToPlayer ?b t pl \<and> hasCapturingPath ?b t) \<and>
        (hasAnyPath ?b t \<longrightarrow> (\<exists>gs2. setFrom BonusGame (resetMove gs) t pl = Inr gs2 \<and>
                  validDestinations (move gs2) \<noteq> [] \<and>
                  (\<forall>vd \<in> set (validDestinations (move gs2)). 2 < length (path vd)))) \<and>
        (hasAnyPath ?b t \<longrightarrow> (\<exists>gs2 pc. getPiece ?b t = Some pc \<and>
                  setFrom BonusGame (resetMove gs) t pl = Inr gs2 \<and>
                  map path (validDestinations (move gs2)) =
                    filter (\<lambda>pth. 2 < length pth) (setPathsDFS ?b t t pc [])))
      else
        (hasAnyPath ?b t \<longleftrightarrow> tileBelongsToPlayer ?b t pl \<and> hasAnyPath ?b t) \<and>
        (tileBelongsToPlayer ?b t pl \<longrightarrow>
           (\<exists>gs2 pc. getPiece ?b t = Some pc \<and>
              setFrom BonusGame (resetMove gs) t pl = Inr gs2 \<and>
              map path (validDestinations (move gs2)) = setPathsDFS ?b t t pc []))"
        using cannot True m sf pc by (simp only: if_False) blast
    qed
  qed
qed

lemma cycleStart_fields:
  "board cycleStart = cycleBoard" "winner cycleStart = None" "status cycleStart = Active"
  "move cycleStart = emptyMove" "activePlayer cycleStart = Blue"
  by (simp_all add: cycleStart_def)

lemma cycleBoard_tiles:
  "(2, 2) \<in> set getTiles" "(2, 6) \<in> set getTiles"
  "getPiece cycleBoard (2, 2) = Some (Piece Blue Queen)"
  "tileBelongsToPlayer cycleBoard (2, 2) Blue"
  "hasCapturingPath cycleBoard (2, 2)"
  "playerCanCapture cycleBoard Blue"
proof -
  show t: "(2, 2) \<in> set getTiles" "(2, 6) \<in> set getTiles" by (simp_all add: set_getTiles)
  show p: "getPiece cycleBoard (2, 2) = Some (Piece Blue Queen)"
    by (simp add: getPiece_def cycleBoard_def)
  then show o: "tileBelongsToPlayer cycleBoard (2, 2) Blue"
    by (simp add: tileBelongsToPlayer_def)
  show h: "hasCapturingPath cycleBoard (2, 2)"
    by (simp add: hasCapturingPath_def p cycleBoard_paths)
  show "playerCanCapture cycleBoard Blue"
    unfolding playerCanCapture_def list_ex_iff using t(1) o h by blast
qed

lemma getTiles_list:
  "getTiles =
     [(0, 0), (0, 1), (0, 2), (0, 3), (0, 4), (0, 5), (0, 6), (0, 7),
      (1, 0), (1, 1), (1, 2), (1, 3), (1, 4), (1, 5), (1, 6), (1, 7),
      (2, 0), (2, 1), (2, 2), (2, 3), (2, 4), (2, 5), (2, 6), (2, 7),
      (3, 0), (3, 1), (3, 2), (3, 3), (3, 4), (3, 5), (3, 6), (3, 7),
      (4, 0), (4, 1), (4, 2), (4, 3), (4, 4), (4, 5), (4, 6), (4, 7),
      (5, 0), (5, 1), (5, 2), (5, 3), (5, 4), (5, 5), (5, 6), (5, 7),
      (6, 0), (6, 1), (6, 2), (6, 3), (6, 4), (6, 5), (6, 6), (6, 7),
      (7, 0), (7, 1), (7, 2), (7, 3), (7, 4), (7, 5), (7, 6), (7, 7)]"
  unfolding getTiles_def by code_simp

lemma newBoard_paths_2_2:
  "setPathsDFS newBoard (2, 2) (2, 2) (Piece Blue Pawn) [] =
     [[(2, 2), (3, 1)], [(2, 2), (3, 3)]]"
  by (simp add: search_eval newBoard_def)

lemma newBoard_blue_cannot_capture: "\<not> playerCanCapture newBoard Blue"
  unfolding playerCanCapture_def getTiles_list
  by (simp add: hasCapturingPath_def search_eval newBoard_def)

lemma newBoard_tiles:
  "getPiece newBoard (2, 2) = Some (Piece Blue Pawn)"
  "tileBelongsToPlayer newBoard (2, 2) Blue"
  "hasAnyPath newBoard (2, 2)"
proof -
  show p: "getPiece newBoard (2, 2) = Some (Piece Blue Pawn)"
    by (simp add: getPiece_def newBoard_def)
  then show "tileBelongsToPlayer newBoard (2, 2) Blue"
    by (simp add: tileBelongsToPlayer_def)
  show "hasAnyPath newBoard (2, 2)"
    by (simp add: hasAnyPath_def p newBoard_paths_2_2)
qed

theorem C4_forced_capture_selection_witness:
  "(2, 2) \<in> set getTiles \<and>
   playerCanCapture (board cycleStart) Blue \<and>
   tileBelongsToPlayer (board cycleStart) (2, 2) Blue \<and>
   hasCapturingPath (board cycleStart) (2, 2) \<and>
   (\<exists>gs1 gs2. isFromValid BonusGame cycleStart (2, 2) Blue = Inr (True, gs1) \<and>
      setFrom BonusGame gs1 (2, 2) Blue = Inr gs2 \<and>
      validDestinations (move gs2) \<noteq> [] \<and>
      (\<forall>vd \<in> set (validDestinations (move gs2)). 2 < length (path vd)) \<and>
      map path (validDestinations (move gs2)) =
        filter (\<lambda>pth. 2 < length pth)
          (setPathsDFS cycleBoard (2, 2) (2, 2) (Piece Blue Queen) [])) \<and>
   \<not> playerCanCapture (board initialState) Blue \<and>
   tileBelongsToPlayer (board initialState) (2, 2) Blue \<and>
   hasAnyPath (board initialState) (2, 2) \<and>
   (\<exists>gs1 gs2. isFromValid BonusGame initialState (2, 2) Blue = Inr (True, gs1) \<and>
      setFrom BonusGame gs1 (2, 2) Blue = Inr gs2 \<and>
      map path (validDestinations (move gs2)) = [[(2, 2), (3, 1)], [(2, 2), (3, 3)]])"
proof -
  have b: "board initialState = newBoard" by (simp add: initialState_def)
  have capture_half:
    "\<exists>gs1 gs2. isFromValid BonusGame cycleStart (2, 2) Blue = Inr (True, gs1) \<and>
      setFrom BonusGame gs1 (2, 2) Blue = Inr gs2 \<and>
      validDestinations (move gs2) \<noteq> [] \<and>
      (\<forall>vd \<in> set (validDestinations (move gs2)). 2 < length (path vd)) \<and>
      map path (validDestinations (move gs2)) =
        filter (\<lambda>pth. 2 < length pth)
          (setPathsDFS cycleBoard (2, 2) (2, 2) (Piece Blue Queen) [])"
    using C4_forced_capture_selection[OF cycleBoard_tiles(1), of cycleStart Blue]
      cycleBoard_tiles
    by (auto simp: cycleStart_fields)
  have step_half:
    "\<exists>gs1 gs2. isFromValid BonusGame initialState (2, 2) Blue = Inr (True, gs1) \<and>
      setFrom BonusGame gs1 (2, 2) Blue = Inr gs2 \<and>
      map path (validDestinations (move gs2)) = [[(2, 2), (3, 1)], [(2, 2), (3, 3)]]"
    using C4_forced_capture_selection[OF cycleBoard_tiles(1), of initialState Blue]
      newBoard_blue_cannot_capture newBoard_tiles
    by (auto simp: b newBoard_paths_2_2)
  show ?thesis
    using capture_half step_half cycleBoard_tiles newBoard_blue_cannot_capture newBoard_tiles
    by (simp add: cycleStart_fields b)
qed

section \<open>The turn controller, branch by branch\<close>

text \<open>What \<open>isFromValid\<close> answers for a tile of the board.\<close>

definition selectable :: "variant \<Rightarrow> board \<Rightarrow> tile \<Rightarrow> player \<Rightarrow> bool" where
  "selectable v b t pl \<longleftrightarrow>
     tileBelongsToPlayer b t pl \<and>
     (case v of
        BaseGame \<Rightarrow> destinationsAt BaseGame b t pl \<noteq> []
      | BonusGame \<Rightarrow>
          (if playerCanCapture b pl then hasCapturingPath b t
           else destinationsAt BonusGame b t pl \<noteq> []))"

text \<open>The board after the pending move is carried out to a destination tile.\<close>

definition movedBoard :: "GameState \<Rightarrow> tile \<Rightarrow> tile \<Rightarrow> board" where
  "movedBoard gs fromTile toTile =
     (let caps = getCapturesForDestination gs toTile;
          b1 = capture (board gs) caps;
          b2 = setTilePiece b1 toTile (getPiece b1 fromTile)
      in setTilePiece b2 fromTile None)"

text \<open>The win check and the hand-over of the turn after a move.\<close>

definition finishTurn :: "GameState \<Rightarrow> GameState" where
  "finishTurn gs =
     (if hasPlayerWon (board gs) (activePlayer gs) then setWinner gs (activePlayer gs)
      else if rivalHasPieces (board gs) (activePlayer gs) then switchPlayer gs
      else gs)"

text \<open>The state after the promotion of the piece on a tile.\<close>

definition promoted :: "GameState \<Rightarrow> tile \<Rightarrow> GameState" where
  "promoted gs t =
     (let gs1 = gs\<lparr>board := setNewQueen (board gs) t (activePlayer gs)\<rparr>
      in if hasPlayerWon (board gs1) (activePlayer gs) then setWinner gs1 (activePlayer gs)
         else gs1)"

lemma isFromValid_eq:
  assumes "t \<in> set getTiles"
  shows "isFromValid v gs t pl =
     Inr (selectable v (board gs) t pl,
          if tileBelongsToPlayer (board gs) t pl then resetMove gs else gs)"
proof (cases "tileBelongsToPlayer (board gs) t pl")
  case False
  then show ?thesis by (simp add: isFromValid_not_own selectable_def)
next
  case True
  then show ?thesis
    using isFromValid_Bonus[OF True assms] isFromValid_Base[OF True]
    by (cases v) (simp_all add: selectable_def)
qed

lemma playGame_off_board:
  "getTile row column = None \<Longrightarrow> playGame v gs row column ow = Inr (None, gs)"
  by (simp add: playGame_def)

lemma playGame_finished:
  "winner gs \<noteq> None \<Longrightarrow> playGame v gs row column ow = Inr (None, gs)"
proof -
  assume "winner gs \<noteq> None"
  then have "isGameWon gs" by (simp add: isGameWon_def)
  then show ?thesis
    by (cases "getTile row column") (simp_all add: playGame_def)
qed

lemma playGame_promote:
  assumes "getTile row column = Some t" "winner gs = None"
    and "\<not> playerHasQueen (board gs) (activePlayer gs)"
  shows "playGame v gs row column ow =
     (if isValidQueen (board gs) t (activePlayer gs) then
        Inr (Some \<lparr>tileInstructions =
                     [\<lparr>colToSet = column, rowToSet = row,
                       newOwner = ownerString (activePlayer gs) Queen\<rparr>],
                   playing = activePlayer gs, instr_winner = winner (promoted gs t)\<rparr>,
             promoted gs t)
      else Inr (None, gs))"
  using assms by (simp add: playGame_def isGameWon_def promoted_def Let_def)

lemma playGame_select:
  assumes "getTile row column = Some t" "winner gs = None"
    and "playerHasQueen (board gs) (activePlayer gs)" and "move gs = emptyMove"
  shows "playGame v gs row column ow =
     (if selectable v (board gs) t (activePlayer gs) then
        (case getPiece (board gs) t of
           None \<Rightarrow> Inl TypeError
         | Some pc \<Rightarrow>
             Inr (Some \<lparr>tileInstructions =
                          [\<lparr>colToSet = column, rowToSet = row, newOwner = NoOwner\<rparr>],
                        playing = activePlayer gs, instr_winner = winner gs\<rparr>,
                  gs\<lparr>move := pendingMove v (board gs) t pc (activePlayer gs)\<rparr>))
      else Inr (None, gs))"
proof -
  have t: "t \<in> set getTiles" using assms(1) unfolding getTile_Some_iff by blast
  have rs: "resetMove gs = gs" using assms(4) by (rule resetMove_idem)
  have iv: "isFromValid v gs t (activePlayer gs) =
      Inr (selectable v (board gs) t (activePlayer gs), gs)"
    using isFromValid_eq[OF t, of v gs "activePlayer gs"] rs by simp
  have from_none: "move_from (move gs) = None" using assms(4) by (simp add: emptyMove_def)
  have sf: "\<And>pc. getPiece (board gs) t = Some pc \<Longrightarrow>
      setFrom v gs t (activePlayer gs) =
        Inr (gs\<lparr>move := pendingMove v (board gs) t pc (activePlayer gs)\<rparr>)"
    using setFrom_emptyMove[OF _ assms(4)] by simp
  have sn: "getPiece (board gs) t = None \<Longrightarrow> setFrom v gs t (activePlayer gs) = Inl TypeError"
    by (simp add: setFrom_def)
  show ?thesis
    using assms(1,2,3) from_none
    by (auto simp: playGame_def isGameWon_def Let_def iv sf sn split: option.split)
qed

lemma playGame_cancel:
  assumes "getTile row column = Some f" "winner gs = None"
    and "playerHasQueen (board gs) (activePlayer gs)"
    and "move_from (move gs) = Some f" "move_to (move gs) = None"
  shows "playGame v gs row column ow =
     Inr (Some \<lparr>tileInstructions =
                  [\<lparr>colToSet = column, rowToSet = row,
                    newOwner = getTileOwnerString (board gs) f\<rparr>],
                playing = activePlayer gs, instr_winner = winner gs\<rparr>,
          resetMove gs)"
  using assms
  by (simp add: playGame_def isGameWon_def isToSet_def isToTheSameAsFrom_def Let_def)

lemma setTo_fields:
  "board (setTo gs t) = board gs" "status (setTo gs t) = status gs"
  "winner (setTo gs t) = winner gs" "activePlayer (setTo gs t) = activePlayer gs"
  by (simp_all add: setTo_def)

lemma playGame_move:
  assumes "getTile row column = Some t" "winner gs = None"
    and "playerHasQueen (board gs) (activePlayer gs)"
    and "move_from (move gs) = Some f" "move_to (move gs) = None"
    and "t \<noteq> f" "isToValid gs t"
  shows "playGame v gs row column ow =
     Inr (Some \<lparr>tileInstructions =
                  \<lparr>colToSet = column, rowToSet = row,
                    newOwner = getTileOwnerString (board gs) f\<rparr>
                  # getCaptureInstructions (getCapturesForDestination gs t),
                playing = activePlayer (finishTurn (gs\<lparr>board := movedBoard gs f t\<rparr>)),
                instr_winner = winner (finishTurn (gs\<lparr>board := movedBoard gs f t\<rparr>))\<rparr>,
          resetMove (finishTurn (gs\<lparr>board := movedBoard gs f t\<rparr>)))"
proof -
  have caps: "getCapturesForDestination (setTo gs t) t = getCapturesForDestination gs t"
    by (simp add: getCapturesForDestination_def setTo_def)
  have rm: "\<And>g. resetMove (g\<lparr>move := (move gs)\<lparr>move_to := Some t\<rparr>\<rparr>) = resetMove (g\<lparr>move := move gs\<rparr>)"
    by (simp add: resetMove_eq)
  let ?g = "gs\<lparr>board := movedBoard gs f t\<rparr>"
  let ?h = "(setTo gs t)\<lparr>board := movedBoard gs f t\<rparr>"
  have h: "?h = ?g\<lparr>move := (move gs)\<lparr>move_to := Some t\<rparr>\<rparr>"
    by (simp add: setTo_def)
  have fin: "activePlayer (finishTurn ?h) = activePlayer (finishTurn ?g)"
      "winner (finishTurn ?h) = winner (finishTurn ?g)"
      "resetMove (finishTurn ?h) = resetMove (finishTurn ?g)"
    unfolding h
    by (simp_all add: finishTurn_def setWinner_def switchPlayer_def resetMove_eq)
  have "playGame v gs row column ow =
     Inr (Some \<lparr>tileInstructions =
                  \<lparr>colToSet = column, rowToSet = row,
                    newOwner = getTileOwnerString (board gs) f\<rparr>
                  # getCaptureInstructions (getCapturesForDestination gs t),
                playing = activePlayer (finishTurn ?h),
                instr_winner = winner (finishTurn ?h)\<rparr>,
          resetMove (finishTurn ?h))"
    using assms
    by (simp add: playGame_def isGameWon_def isToSet_def isToTheSameAsFrom_def Let_def caps
        movedBoard_def finishTurn_def setTo_fields)
  then show ?thesis by (simp only: fin)
qed

lemma playGame_ignore:
  assumes "getTile row column = Some t" "winner gs = None"
    and "playerHasQueen (board gs) (activePlayer gs)"
    and "move_from (move gs) = Some f" "move_to (move gs) = None"
    and "t \<noteq> f" "\<not> isToValid gs t"
  shows "playGame v gs row column ow = Inr (None, gs)"
  using assms
  by (simp add: playGame_def isGameWon_def isToSet_def isToTheSameAsFrom_def Let_def)

section \<open>States the game can be in\<close>

text \<open>
  What holds of the game state between two calls of \<open>playGame\<close>: \<open>to\<close> is never left set;
  there is a winner exactly when the status is inactive, and the winner is the active
  player and has a queen; with no \<open>from\<close> the move is reset; with a \<open>from\<close> the game is
  not won, the active player has a queen, and the move holds what \<open>setFrom\<close> computed
  for the piece of the active player on \<open>from\<close>.
\<close>

definition gameInv :: "variant \<Rightarrow> GameState \<Rightarrow> bool" where
  "gameInv v gs \<longleftrightarrow>
     move_to (move gs) = None \<and>
     (winner gs = None \<longleftrightarrow> status gs = Active) \<and>
     (winner gs \<noteq> None \<longrightarrow> playerHasQueen (board gs) (activePlayer gs)) \<and>
     (case move_from (move gs) of
        None \<Rightarrow> move gs = emptyMove
      | Some f \<Rightarrow>
          winner gs = None \<and> playerHasQueen (board gs) (activePlayer gs) \<and>
          f \<in> set getTiles \<and>
          (case getPiece (board gs) f of
             None \<Rightarrow> False
           | Some pc \<Rightarrow>
               getOwner pc = activePlayer gs \<and>
               move gs = pendingMove v (board gs) f pc (activePlayer gs)))"

text \<open>The states of a game: the initial one, and those after a click or a restart.\<close>

inductive reachable :: "variant \<Rightarrow> GameState \<Rightarrow> bool" for v :: variant where
  start: "reachable v initialState"
| click: "reachable v gs \<Longrightarrow> playGame v gs row column ow = Inr (res, gs') \<Longrightarrow> reachable v gs'"
| restart: "reachable v gs \<Longrightarrow> reachable v (restartGame gs)"

lemma hasPlayerWon_hasQueen: "hasPlayerWon b pl \<Longrightarrow> playerHasQueen b pl"
  by (auto simp: hasPlayerWon_def playerHasQueen_def Let_def)

lemma gameInv_initialState: "gameInv v initialState"
  by (simp add: gameInv_def initialState_def emptyMove_def)

lemma gameInv_no_from:
  assumes "gameInv v gs" "move_from (move gs) = None"
  shows "move gs = emptyMove"
  using assms by (simp add: gameInv_def)

lemma gameInv_no_queen:
  assumes "gameInv v gs" "\<not> playerHasQueen (board gs) (activePlayer gs)"
  shows "move gs = emptyMove" "winner gs = None"
  using assms by (auto simp: gameInv_def split: option.splits)

lemma gameInv_from:
  assumes "gameInv v gs" "move_from (move gs) = Some f"
  shows "winner gs = None" "playerHasQueen (board gs) (activePlayer gs)"
    "move_to (move gs) = None" "f \<in> set getTiles"
    "\<exists>pc. getPiece (board gs) f = Some pc \<and> getOwner pc = activePlayer gs \<and>
          move gs = pendingMove v (board gs) f pc (activePlayer gs)"
  using assms by (auto simp: gameInv_def split: option.splits)

lemma gameInv_resetMove:
  assumes "move_to (move gs) = None \<or> True"
    and "winner gs = None \<longleftrightarrow> status gs = Active"
    and "winner gs \<noteq> None \<longrightarrow> playerHasQueen (board gs) (activePlayer gs)"
  shows "gameInv v (resetMove gs)"
  using assms by (simp add: gameInv_def emptyMove_def)

lemma gameInv_promoted:
  assumes inv: "gameInv v gs" and nq: "\<not> playerHasQueen (board gs) (activePlayer gs)"
  shows "gameInv v (promoted gs t)"
proof -
  have m: "move gs = emptyMove" and w: "winner gs = None"
    using gameInv_no_queen[OF inv nq] by simp_all
  have st: "status gs = Active" using inv w by (simp add: gameInv_def)
  show ?thesis
    using m w st hasPlayerWon_hasQueen
    by (auto simp: gameInv_def promoted_def Let_def setWinner_def emptyMove_def)
qed

lemma gameInv_finishTurn:
  assumes "winner gs = None" "status gs = Active"
  shows "gameInv v (resetMove (finishTurn gs))"
proof (rule gameInv_resetMove)
  show "move_to (move (finishTurn gs)) = None \<or> True" by simp
  show "winner (finishTurn gs) = None \<longleftrightarrow> status (finishTurn gs) = Active"
    using assms by (simp add: finishTurn_def setWinner_def switchPlayer_def)
  show "winner (finishTurn gs) \<noteq> None \<longrightarrow>
        playerHasQueen (board (finishTurn gs)) (activePlayer (finishTurn gs))"
    using assms hasPlayerWon_hasQueen
    by (auto simp: finishTurn_def setWinner_def switchPlayer_def)
qed

text \<open>Under the invariant \<open>playGame\<close> raises no error, and the invariant holds again.\<close>

lemma gameInv_playGame:
  assumes inv: "gameInv v gs"
  shows "\<exists>res gs'. playGame v gs row column ow = Inr (res, gs') \<and> gameInv v gs'"
proof (cases "getTile row column")
  case None
  then show ?thesis using inv by (simp add: playGame_off_board)
next
  case (Some t)
  have t: "t \<in> set getTiles" using Some unfolding getTile_Some_iff by blast
  show ?thesis
  proof (cases "winner gs = None")
    case False
    then show ?thesis using inv by (simp add: playGame_finished)
  next
    case w: True
    then have st: "status gs = Active" using inv by (simp add: gameInv_def)
    show ?thesis
    proof (cases "playerHasQueen (board gs) (activePlayer gs)")
      case False
      show ?thesis
        using playGame_promote[OF Some w False, of v ow] gameInv_promoted[OF inv False, of t] inv
        by (cases "isValidQueen (board gs) t (activePlayer gs)") simp_all
    next
      case q: True
      show ?thesis
      proof (cases "move_from (move gs)")
        case None
        have m: "move gs = emptyMove" using gameInv_no_from[OF inv None] .
        show ?thesis
        proof (cases "selectable v (board gs) t (activePlayer gs)")
          case False
          then show ?thesis using playGame_select[OF Some w q m, of v ow] inv by simp
        next
          case True
          then obtain pc where pc: "getPiece (board gs) t = Some pc"
              "getOwner pc = activePlayer gs"
            by (auto simp: selectable_def tileBelongsToPlayer_def)
          let ?gs' = "gs\<lparr>move := pendingMove v (board gs) t pc (activePlayer gs)\<rparr>"
          have "gameInv v ?gs'"
            using inv w q t pc st by (simp add: gameInv_def pendingMove_def)
          then show ?thesis using playGame_select[OF Some w q m, of v ow] True pc by simp
        qed
      next
        case (Some f)
        note fr = gameInv_from[OF inv Some]
        have rs: "gameInv v (resetMove gs)"
          using w st by (intro gameInv_resetMove) simp_all
        show ?thesis
        proof (cases "t = f")
          case True
          then show ?thesis
            using playGame_cancel[OF _ w q Some fr(3), of row column v ow] \<open>getTile row column = Some t\<close> rs
            by simp
        next
          case False
          show ?thesis
          proof (cases "isToValid gs t")
            case True
            have "gameInv v (resetMove (finishTurn (gs\<lparr>board := movedBoard gs f t\<rparr>)))"
              using w st by (intro gameInv_finishTurn) simp_all
            then show ?thesis
              using playGame_move[OF \<open>getTile row column = Some t\<close> w q Some fr(3) False True, of v ow]
              by simp
          next
            case nv: False
            then show ?thesis
              using playGame_ignore[OF \<open>getTile row column = Some t\<close> w q Some fr(3) False nv, of v ow] inv
              by simp
          qed
        qed
      qed
    qed
  qed
qed

lemma reachable_gameInv: "reachable v gs \<Longrightarrow> gameInv v gs"
proof (induction rule: reachable.induct)
  case start
  show ?case by (rule gameInv_initialState)
next
  case (click gs row column ow res gs')
  from gameInv_playGame[OF click.IH, of row column ow] click.hyps(2) show ?case by simp
next
  case (restart gs)
  show ?case by (simp add: restartGame_def gameInv_initialState)
qed

section \<open>Idle pieces and queen promotion\<close>

text \<open>
  An idle piece of a player, said without the fold of \<open>getIdlePieceTiles\<close>: a board tile
  of the player such that no tile of the player lies on a smaller row (blue) or on a
  larger row (red).
\<close>

definition isIdlePiece :: "board \<Rightarrow> player \<Rightarrow> tile \<Rightarrow> bool" where
  "isIdlePiece b pl t \<longleftrightarrow>
     t \<in> set getTiles \<and> tileBelongsToPlayer b t pl \<and>
     list_all (\<lambda>t'. tileBelongsToPlayer b t' pl \<longrightarrow>
                 (if pl = Blue then getRow t \<le> getRow t' else getRow t' \<le> getRow t))
       getTiles"

lemma foldl_min_spec:
  fixes f :: "'a \<Rightarrow> int"
  shows "foldl (\<lambda>acc t. if f t < acc then f t else acc) a xs \<le> a \<and>
         (\<forall>x \<in> set xs. foldl (\<lambda>acc t. if f t < acc then f t else acc) a xs \<le> f x) \<and>
         (foldl (\<lambda>acc t. if f t < acc then f t else acc) a xs = a \<or>
          foldl (\<lambda>acc t. if f t < acc then f t else acc) a xs \<in> f ` set xs)"
proof (induction xs arbitrary: a)
  case Nil
  show ?case by simp
next
  case (Cons x xs)
  let ?a' = "if f x < a then f x else a"
  let ?r = "foldl (\<lambda>acc t. if f t < acc then f t else acc) ?a' xs"
  from Cons.IH[of ?a'] have ih: "?r \<le> ?a'" "\<forall>y \<in> set xs. ?r \<le> f y" "?r = ?a' \<or> ?r \<in> f ` set xs"
    by blast+
  have r: "foldl (\<lambda>acc t. if f t < acc then f t else acc) a (x # xs) = ?r" by simp
  have "?r \<le> a" "?r \<le> f x" using ih(1) by (auto split: if_splits)
  moreover have "?r = a \<or> ?r \<in> f ` set (x # xs)" using ih(3) by (auto split: if_splits)
  ultimately show ?case unfolding r using ih(2) by simp
qed

lemma foldl_max_spec:
  fixes f :: "'a \<Rightarrow> int"
  shows "a \<le> foldl (\<lambda>acc t. if f t > acc then f t else acc) a xs \<and>
         (\<forall>x \<in> set xs. f x \<le> foldl (\<lambda>acc t. if f t > acc then f t else acc) a xs) \<and>
         (foldl (\<lambda>acc t. if f t > acc then f t else acc) a xs = a \<or>
          foldl (\<lambda>acc t. if f t > acc then f t else acc) a xs \<in> f ` set xs)"
proof (induction xs arbitrary: a)
  case Nil
  show ?case by simp
next
  case (Cons x xs)
  let ?a' = "if f x > a then f x else a"
  let ?r = "foldl (\<lambda>acc t. if f t > acc then f t else acc) ?a' xs"
  from Cons.IH[of ?a'] have ih: "?a' \<le> ?r" "\<forall>y \<in> set xs. f y \<le> ?r" "?r = ?a' \<or> ?r \<in> f ` set xs"
    by blast+
  have r: "foldl (\<lambda>acc t. if f t > acc then f t else acc) a (x # xs) = ?r" by simp
  have "a \<le> ?r" "f x \<le> ?r" using ih(1) by (auto split: if_splits)
  moreover have "?r = a \<or> ?r \<in> f ` set (x # xs)" using ih(3) by (auto split: if_splits)
  ultimately show ?case unfolding r using ih(2) by simp
qed

lemma getTiles_rows: "t \<in> set getTiles \<Longrightarrow> 0 \<le> getRow t \<and> getRow t \<le> 7"
  by (simp add: set_getTiles getRow_def)

lemma in_getIdlePieceTiles:
  "t \<in> set (getIdlePieceTiles b pl) \<longleftrightarrow> isIdlePiece b pl t"
proof -
  let ?own = "\<lambda>t. map_option getOwner (getPiece b t) = Some pl"
  let ?tiles = "filter ?own getTiles"
  have own: "\<And>t. ?own t \<longleftrightarrow> tileBelongsToPlayer b t pl"
    by (simp add: tileBelongsToPlayer_def)
  have rows: "\<And>x. x \<in> set ?tiles \<Longrightarrow> 0 \<le> getRow x \<and> getRow x \<le> 7"
    using getTiles_rows by simp
  show ?thesis
  proof (cases "pl = Blue")
    case True
    let ?r = "foldl (\<lambda>acc t. if getRow t < acc then getRow t else acc) 7 ?tiles"
    have spec: "?r \<le> 7" "\<forall>x \<in> set ?tiles. ?r \<le> getRow x" "?r = 7 \<or> ?r \<in> getRow ` set ?tiles"
      using foldl_min_spec[of getRow 7 ?tiles] by blast+
    have idle: "getIdlePieceTiles b pl = filter (\<lambda>t. getRow t = ?r) ?tiles"
      using True by (simp add: getIdlePieceTiles_def Let_def)
    have "t \<in> set ?tiles \<Longrightarrow> getRow t = ?r \<longleftrightarrow> (\<forall>t' \<in> set ?tiles. getRow t \<le> getRow t')"
    proof -
      assume t: "t \<in> set ?tiles"
      show ?thesis
      proof
        assume "getRow t = ?r"
        then show "\<forall>t' \<in> set ?tiles. getRow t \<le> getRow t'" using spec(2) by simp
      next
        assume least: "\<forall>t' \<in> set ?tiles. getRow t \<le> getRow t'"
        have "getRow t \<le> ?r"
          using spec(3) least rows[OF t] by auto
        moreover have "?r \<le> getRow t" using spec(2) t by blast
        ultimately show "getRow t = ?r" by simp
      qed
    qed
    then show ?thesis
      unfolding idle isIdlePiece_def list_all_iff using True own by auto
  next
    case False
    let ?r = "foldl (\<lambda>acc t. if getRow t > acc then getRow t else acc) 0 ?tiles"
    have spec: "0 \<le> ?r" "\<forall>x \<in> set ?tiles. getRow x \<le> ?r" "?r = 0 \<or> ?r \<in> getRow ` set ?tiles"
      using foldl_max_spec[of 0 getRow ?tiles] by blast+
    have idle: "getIdlePieceTiles b pl = filter (\<lambda>t. getRow t = ?r) ?tiles"
      using False by (simp add: getIdlePieceTiles_def Let_def)
    have "t \<in> set ?tiles \<Longrightarrow> getRow t = ?r \<longleftrightarrow> (\<forall>t' \<in> set ?tiles. getRow t' \<le> getRow t)"
    proof -
      assume t: "t \<in> set ?tiles"
      show ?thesis
      proof
        assume "getRow t = ?r"
        then show "\<forall>t' \<in> set ?tiles. getRow t' \<le> getRow t" using spec(2) by simp
      next
        assume most: "\<forall>t' \<in> set ?tiles. getRow t' \<le> getRow t"
        have "?r \<le> getRow t"
          using spec(3) most rows[OF t] by auto
        moreover have "getRow t \<le> ?r" using spec(2) t by blast
        ultimately show "getRow t = ?r" by simp
      qed
    qed
    then show ?thesis
      unfolding idle isIdlePiece_def list_all_iff using False own by auto
  qed
qed

lemma isValidQueen_iff: "isValidQueen b t pl \<longleftrightarrow> isIdlePiece b pl t"
  unfolding isValidQueen_def list_ex_iff using in_getIdlePieceTiles[of t b pl] by auto

text \<open>A player without a queen: no board tile holds a queen of the player.\<close>

lemma playerHasQueen_iff:
  "playerHasQueen b pl \<longleftrightarrow> (\<exists>t \<in> set getTiles. getPiece b t = Some (Piece pl Queen))"
proof -
  have "(map_option getOwner p = Some pl \<and> map_option getType p = Some Queen) \<longleftrightarrow>
        p = Some (Piece pl Queen)" for p
  proof (cases p)
    case None
    then show ?thesis by simp
  next
    case (Some z)
    then show ?thesis by (cases z) auto
  qed
  then show ?thesis
    unfolding playerHasQueen_def getQueen_def find_None_iff by auto
qed

lemma promoted_fields:
  "board (promoted gs t) = (board gs)(t := Some (Piece (activePlayer gs) Queen))"
  "move (promoted gs t) = move gs" "activePlayer (promoted gs t) = activePlayer gs"
  by (simp_all add: promoted_def Let_def setNewQueen_def setPiece_def setWinner_def)

text \<open>
  C9. In a state of the game in which no board tile holds a queen of the active player,
  \<open>playGame\<close> returns an instruction exactly when the clicked tile is an idle piece of
  the player: a tile of the player on the smallest row among the player's tiles (blue)
  or on the largest (red). Accepting puts a queen of the player on that tile and
  changes no other tile; every other click returns \<open>undefined\<close> and changes nothing.
\<close>

theorem C9_queen_promotion:
  assumes "gameInv v gs"
    and "\<not> (\<exists>t \<in> set getTiles. getPiece (board gs) t = Some (Piece (activePlayer gs) Queen))"
  shows "\<exists>res gs'. playGame v gs row column ow = Inr (res, gs') \<and>
     (res \<noteq> None \<longleftrightarrow> isIdlePiece (board gs) (activePlayer gs) (row, column)) \<and>
     (res \<noteq> None \<longrightarrow>
        board gs' = (board gs)((row, column) := Some (Piece (activePlayer gs) Queen)) \<and>
        move gs' = move gs \<and> activePlayer gs' = activePlayer gs) \<and>
     (res = None \<longrightarrow> gs' = gs)"
proof -
  let ?ap = "activePlayer gs"
  have nq: "\<not> playerHasQueen (board gs) ?ap"
    using assms(2) by (simp add: playerHasQueen_iff)
  have w: "winner gs = None" using gameInv_no_queen[OF assms(1) nq] by simp
  show ?thesis
  proof (cases "getTile row column")
    case None
    then have "(row, column) \<notin> set getTiles" by (simp add: getTile_eq set_getTiles split: if_splits)
    then have "\<not> isIdlePiece (board gs) ?ap (row, column)" by (simp add: isIdlePiece_def)
    then show ?thesis using playGame_off_board[OF None, of v gs ow] by simp
  next
    case (Some t)
    then have t: "t = (row, column)" unfolding getTile_Some_iff by blast
    show ?thesis
    proof (cases "isIdlePiece (board gs) ?ap (row, column)")
      case True
      then have "isValidQueen (board gs) t ?ap" by (simp add: isValidQueen_iff t)
      then show ?thesis
        using playGame_promote[OF Some w nq, of v ow] True promoted_fields[of gs t]
        by (simp add: t)
    next
      case False
      then have "\<not> isValidQueen (board gs) t ?ap" by (simp add: isValidQueen_iff t)
      then show ?thesis
        using playGame_promote[OF Some w nq, of v ow] False by simp
    qed
  qed
qed

text \<open>
  A position in which blue has lost its queen: blue pawns on (0,2), (1,1), (1,3) and
  (2,0), a red queen on (7,7) and a red pawn on (5,5); blue is to move.
\<close>

definition idleBoard :: board where
  "idleBoard =
     (\<lambda>t. None)((0, 2) := Some (Piece Blue Pawn), (1, 1) := Some (Piece Blue Pawn),
                 (1, 3) := Some (Piece Blue Pawn), (2, 0) := Some (Piece Blue Pawn),
                 (7, 7) := Some (Piece Red Queen), (5, 5) := Some (Piece Red Pawn))"

definition idleState :: GameState where
  "idleState =
     \<lparr>board = idleBoard, status = Active, winner = None, move = emptyMove,
      activePlayer = Blue\<rparr>"

lemma idleState_fields:
  "board idleState = idleBoard" "winner idleState = None" "status idleState = Active"
  "move idleState = emptyMove" "activePlayer idleState = Blue"
  by (simp_all add: idleState_def)

lemma idleState_inv: "gameInv v idleState"
  by (simp add: gameInv_def idleState_def emptyMove_def)

lemma idleBoard_no_blue_queen:
  "\<not> (\<exists>t \<in> set getTiles. getPiece idleBoard t = Some (Piece Blue Queen))"
  unfolding getTiles_list by (simp add: getPiece_def idleBoard_def)

lemma idleBoard_idle:
  "isIdlePiece idleBoard Blue (0, 2)" "\<not> isIdlePiece idleBoard Blue (1, 1)"
  unfolding isIdlePiece_def getTiles_list
  by (simp_all add: tileBelongsToPlayer_def getPiece_def getRow_def idleBoard_def)

theorem C9_queen_promotion_witness:
  "gameInv BonusGame idleState \<and>
   \<not> (\<exists>t \<in> set getTiles. getPiece (board idleState) t = Some (Piece (activePlayer idleState) Queen)) \<and>
   isIdlePiece idleBoard Blue (0, 2) \<and> \<not> isIdlePiece idleBoard Blue (1, 1) \<and>
   (\<exists>res gs'. playGame BonusGame idleState 0 2 BluePawn = Inr (res, gs') \<and> res \<noteq> None \<and>
      board gs' = idleBoard((0, 2) := Some (Piece Blue Queen))) \<and>
   playGame BonusGame idleState 1 1 BluePawn = Inr (None, idleState)"
proof -
  have nq: "\<not> (\<exists>t \<in> set getTiles.
      getPiece (board idleState) t = Some (Piece (activePlayer idleState) Queen))"
    using idleBoard_no_blue_queen by (simp add: idleState_fields)
  have a: "\<exists>res gs'. playGame BonusGame idleState 0 2 BluePawn = Inr (res, gs') \<and> res \<noteq> None \<and>
      board gs' = idleBoard((0, 2) := Some (Piece Blue Queen))"
    using C9_queen_promotion[OF idleState_inv nq, of BonusGame 0 2 BluePawn] idleBoard_idle(1)
    by (auto simp: idleState_fields)
  have b: "playGame BonusGame idleState 1 1 BluePawn = Inr (None, idleState)"
    using C9_queen_promotion[OF idleState_inv nq, of BonusGame 1 1 BluePawn] idleBoard_idle(2)
    by (auto simp: idleState_fields)
  show ?thesis using idleState_inv nq idleBoard_idle a b by blast
qed

section \<open>Clicks that change nothing\<close>

text \<open>In a state of the game, \<open>playGame\<close> returns \<open>undefined\<close> exactly when it changes nothing.\<close>

lemma playGame_changes:
  assumes inv: "gameInv v gs" and pg: "playGame v gs row column ow = Inr (res, gs')"
  shows "res = None \<longleftrightarrow> gs' = gs"
proof (cases "getTile row column")
  case None
  then show ?thesis using pg by (simp add: playGame_off_board)
next
  case (Some t)
  have t: "t \<in> set getTiles" using Some unfolding getTile_Some_iff by blast
  let ?ap = "activePlayer gs"
  show ?thesis
  proof (cases "winner gs = None")
    case False
    then show ?thesis using pg by (simp add: playGame_finished)
  next
    case w: True
    show ?thesis
    proof (cases "playerHasQueen (board gs) ?ap")
      case False
      show ?thesis
      proof (cases "isValidQueen (board gs) t ?ap")
        case nv: False
        then show ?thesis using playGame_promote[OF Some w False, of v ow] pg by simp
      next
        case True
        then have eq: "gs' = promoted gs t" "res \<noteq> None"
          using playGame_promote[OF Some w False, of v ow] pg by auto
        have "getPiece (board gs) t \<noteq> Some (Piece ?ap Queen)"
          using False t by (auto simp: playerHasQueen_iff)
        moreover have "getPiece (board (promoted gs t)) t = Some (Piece ?ap Queen)"
          by (simp add: promoted_fields getPiece_def)
        ultimately have "promoted gs t \<noteq> gs" by auto
        then show ?thesis using eq by simp
      qed
    next
      case q: True
      show ?thesis
      proof (cases "move_from (move gs)")
        case None
        have m: "move gs = emptyMove" using gameInv_no_from[OF inv None] .
        show ?thesis
        proof (cases "selectable v (board gs) t ?ap")
          case False
          then show ?thesis using playGame_select[OF Some w q m, of v ow] pg by simp
        next
          case True
          then obtain pc where pc: "getPiece (board gs) t = Some pc"
            by (auto simp: selectable_def tileBelongsToPlayer_def)
          have eq: "gs' = gs\<lparr>move := pendingMove v (board gs) t pc ?ap\<rparr>" "res \<noteq> None"
            using playGame_select[OF Some w q m, of v ow] pg True pc by auto
          have "move_from (move gs') = Some t" unfolding eq by (simp add: pendingMove_def)
          then have "gs' \<noteq> gs" using None by auto
          then show ?thesis using eq(2) by simp
        qed
      next
        case fr: (Some f)
        note g = gameInv_from[OF inv fr]
        show ?thesis
        proof (cases "t = f")
          case True
          have "playGame v gs row column ow =
              Inr (Some \<lparr>tileInstructions =
                           [\<lparr>colToSet = column, rowToSet = row,
                             newOwner = getTileOwnerString (board gs) f\<rparr>],
                         playing = ?ap, instr_winner = winner gs\<rparr>,
                   resetMove gs)"
            using playGame_cancel[OF _ w q fr g(3), of row column v ow] Some True by simp
          then have eq: "gs' = resetMove gs" "res \<noteq> None" using pg by auto
          have "move_from (move gs') = None" unfolding eq by (simp add: emptyMove_def)
          then have "gs' \<noteq> gs" using fr by auto
          then show ?thesis using eq(2) by simp
        next
          case ne: False
          show ?thesis
          proof (cases "isToValid gs t")
            case True
            have eq: "gs' = resetMove (finishTurn (gs\<lparr>board := movedBoard gs f t\<rparr>))"
                "res \<noteq> None"
              using playGame_move[OF Some w q fr g(3) ne True, of v ow] pg by auto
            have "move_from (move gs') = None" unfolding eq by (simp add: emptyMove_def)
            then have "gs' \<noteq> gs" using fr by auto
            then show ?thesis using eq(2) by simp
          next
            case False
            then show ?thesis
              using playGame_ignore[OF Some w q fr g(3) ne False, of v ow] pg by simp
          qed
        qed
      qed
    qed
  qed
qed

section \<open>Source selection\<close>

text \<open>What an accepted source click leaves behind.\<close>

lemma source_selection_accepted:
  assumes "gameInv v gs" and "move_from (move gs) = None"
    and "\<exists>t \<in> set getTiles. getPiece (board gs) t = Some (Piece (activePlayer gs) Queen)"
    and "playGame v gs row column ow = Inr (Some instr, gs')"
  shows "board gs' = board gs \<and> status gs' = status gs \<and> winner gs' = winner gs \<and>
     activePlayer gs' = activePlayer gs \<and> move_to (move gs') = move_to (move gs) \<and>
     (\<exists>pc. getPiece (board gs') (row, column) = Some pc \<and> getOwner pc = activePlayer gs \<and>
        move_from (move gs') = Some (row, column) \<and>
        possiblePaths (move gs') = setPathsDFS (board gs) (row, column) (row, column) pc [] \<and>
        map path (validDestinations (move gs')) = validPaths v (possiblePaths (move gs')) \<and>
        map destination (validDestinations (move gs')) =
          map last (validPaths v (possiblePaths (move gs')))) \<and>
     tileInstructions instr = [\<lparr>colToSet = column, rowToSet = row, newOwner = NoOwner\<rparr>]"
proof -
  let ?ap = "activePlayer gs"
  have q: "playerHasQueen (board gs) ?ap" using assms(3) by (simp add: playerHasQueen_iff)
  have m: "move gs = emptyMove" using gameInv_no_from[OF assms(1,2)] .
  have w: "winner gs = None"
  proof (rule ccontr)
    assume "winner gs \<noteq> None"
    from playGame_finished[OF this, of v row column ow] assms(4) show False by simp
  qed
  obtain t where t: "getTile row column = Some t"
    using assms(4) playGame_off_board[of row column v gs ow] by (cases "getTile row column") auto
  then have teq: "t = (row, column)" unfolding getTile_Some_iff by blast
  have sel: "selectable v (board gs) t ?ap"
  proof (rule ccontr)
    assume "\<not> selectable v (board gs) t ?ap"
    with playGame_select[OF t w q m, of v ow] assms(4) show False by simp
  qed
  then obtain pc where pc: "getPiece (board gs) t = Some pc" "getOwner pc = ?ap"
    by (auto simp: selectable_def tileBelongsToPlayer_def)
  have res: "instr = \<lparr>tileInstructions = [\<lparr>colToSet = column, rowToSet = row, newOwner = NoOwner\<rparr>],
                      playing = ?ap, instr_winner = winner gs\<rparr>"
      "gs' = gs\<lparr>move := pendingMove v (board gs) t pc ?ap\<rparr>"
    using playGame_select[OF t w q m, of v ow] assms(4) sel pc by simp_all
  have mt: "move_to (move gs) = None" using m by (simp add: emptyMove_def)
  show ?thesis
    unfolding res using pc mt
    by (simp add: teq pendingMove_def destinationsFrom_def comp_def)
qed

text \<open>
  C10. In a state of the game in which no \<open>from\<close> is set and the active player has a
  queen, \<open>playGame\<close> raises no error; a click it does not accept leaves the state as it
  is, and a click it accepts as the source changes no tile of the board: in particular
  the clicked tile still holds the piece of the active player, on which the search ran.
  Status, winner, active player and \<open>to\<close> are unchanged; \<open>from\<close> becomes the clicked tile,
  \<open>possiblePaths\<close> the paths of the search from it on the unchanged board, and the valid
  destinations are built from the paths the variant keeps. The returned instruction
  labels the clicked tile "none".
\<close>

theorem C10_source_selection_frame:
  assumes "gameInv v gs" and "move_from (move gs) = None"
    and "\<exists>t \<in> set getTiles. getPiece (board gs) t = Some (Piece (activePlayer gs) Queen)"
  shows "\<exists>res gs'. playGame v gs row column ow = Inr (res, gs') \<and>
     (res = None \<longrightarrow> gs' = gs) \<and>
     (\<forall>instr. res = Some instr \<longrightarrow>
        board gs' = board gs \<and> status gs' = status gs \<and> winner gs' = winner gs \<and>
        activePlayer gs' = activePlayer gs \<and> move_to (move gs') = move_to (move gs) \<and>
        (\<exists>pc. getPiece (board gs') (row, column) = Some pc \<and> getOwner pc = activePlayer gs \<and>
           move_from (move gs') = Some (row, column) \<and>
           possiblePaths (move gs') = setPathsDFS (board gs) (row, column) (row, column) pc [] \<and>
           map path (validDestinations (move gs')) = validPaths v (possiblePaths (move gs')) \<and>
           map destination (validDestinations (move gs')) =
             map last (validPaths v (possiblePaths (move gs')))) \<and>
        tileInstructions instr = [\<lparr>colToSet = column, rowToSet = row, newOwner = NoOwner\<rparr>])"
proof -
  from gameInv_playGame[OF assms(1), of row column ow] obtain res gs' where
    pg: "playGame v gs row column ow = Inr (res, gs')" by blast
  have same: "res = None \<longrightarrow> gs' = gs" using playGame_changes[OF assms(1) pg] by simp
  have acc: "\<forall>instr. res = Some instr \<longrightarrow>
        board gs' = board gs \<and> status gs' = status gs \<and> winner gs' = winner gs \<and>
        activePlayer gs' = activePlayer gs \<and> move_to (move gs') = move_to (move gs) \<and>
        (\<exists>pc. getPiece (board gs') (row, column) = Some pc \<and> getOwner pc = activePlayer gs \<and>
           move_from (move gs') = Some (row, column) \<and>
           possiblePaths (move gs') = setPathsDFS (board gs) (row, column) (row, column) pc [] \<and>
           map path (validDestinations (move gs')) = validPaths v (possiblePaths (move gs')) \<and>
           map destination (validDestinations (move gs')) =
             map last (validPaths v (possiblePaths (move gs')))) \<and>
        tileInstructions instr = [\<lparr>colToSet = column, rowToSet = row, newOwner = NoOwner\<rparr>]"
  proof (intro allI impI)
    fix instr
    assume "res = Some instr"
    then have "playGame v gs row column ow = Inr (Some instr, gs')" using pg by simp
    from source_selection_accepted[OF assms this]
    show "board gs' = board gs \<and> status gs' = status gs \<and> winner gs' = winner gs \<and>
        activePlayer gs' = activePlayer gs \<and> move_to (move gs') = move_to (move gs) \<and>
        (\<exists>pc. getPiece (board gs') (row, column) = Some pc \<and> getOwner pc = activePlayer gs \<and>
           move_from (move gs') = Some (row, column) \<and>
           possiblePaths (move gs') = setPathsDFS (board gs) (row, column) (row, column) pc [] \<and>
           map path (validDestinations (move gs')) = validPaths v (possiblePaths (move gs')) \<and>
           map destination (validDestinations (move gs')) =
             map last (validPaths v (possiblePaths (move gs')))) \<and>
        tileInstructions instr = [\<lparr>colToSet = column, rowToSet = row, newOwner = NoOwner\<rparr>]" .
  qed
  show ?thesis using pg same acc by blast
qed

text \<open>The diamond game after blue has picked up the queen on (2,2).\<close>

definition cycleFrom :: GameState where
  "cycleFrom =
     cycleStart\<lparr>move := pendingMove BonusGame cycleBoard (2, 2) (Piece Blue Queen) Blue\<rparr>"

lemma cycleStart_inv: "gameInv v cycleStart"
  by (simp add: gameInv_def cycleStart_def emptyMove_def)

lemma cycleBoard_blue_queen:
  "\<exists>t \<in> set getTiles. getPiece cycleBoard t = Some (Piece Blue Queen)"
  using cycleBoard_tiles(1,3) by blast

lemma cycleStart_select:
  "playGame BonusGame cycleStart 2 2 BlueQueen =
     Inr (Some \<lparr>tileInstructions = [\<lparr>colToSet = 2, rowToSet = 2, newOwner = NoOwner\<rparr>],
                playing = Blue, instr_winner = None\<rparr>, cycleFrom)"
proof -
  have t: "getTile 2 2 = Some (2, 2)" by (simp add: getTile_eq)
  have q: "playerHasQueen (board cycleStart) (activePlayer cycleStart)"
    using cycleBoard_blue_queen by (simp add: playerHasQueen_iff cycleStart_fields)
  have sel: "selectable BonusGame (board cycleStart) (2, 2) (activePlayer cycleStart)"
    using cycleBoard_tiles by (simp add: selectable_def cycleStart_fields)
  show ?thesis
    using playGame_select[OF t cycleStart_fields(2) q cycleStart_fields(4), of BonusGame BlueQueen]
      sel cycleBoard_tiles(3)
    by (simp add: cycleStart_fields cycleFrom_def)
qed

theorem C10_source_selection_frame_witness:
  "gameInv BonusGame cycleStart \<and> move_from (move cycleStart) = None \<and>
   (\<exists>t \<in> set getTiles. getPiece (board cycleStart) t = Some (Piece (activePlayer cycleStart) Queen)) \<and>
   playGame BonusGame cycleStart 2 2 BlueQueen =
     Inr (Some \<lparr>tileInstructions = [\<lparr>colToSet = 2, rowToSet = 2, newOwner = NoOwner\<rparr>],
                playing = Blue, instr_winner = None\<rparr>, cycleFrom) \<and>
   board cycleFrom = cycleBoard \<and>
   getPiece (board cycleFrom) (2, 2) = Some (Piece Blue Queen) \<and>
   move_from (move cycleFrom) = Some (2, 2) \<and>
   [(2, 2), (3, 3), (4, 4), (3, 5), (2, 6), (1, 5), (0, 4), (1, 3), (2, 2)]
     \<in> set (possiblePaths (move cycleFrom)) \<and>
   playGame BonusGame cycleStart 4 4 NoOwner = Inr (None, cycleStart)"
proof -
  have f: "move_from (move cycleStart) = None"
    by (simp add: cycleStart_fields emptyMove_def)
  have q: "\<exists>t \<in> set getTiles.
      getPiece (board cycleStart) t = Some (Piece (activePlayer cycleStart) Queen)"
    using cycleBoard_blue_queen by (simp add: cycleStart_fields)
  from C10_source_selection_frame[OF cycleStart_inv f q, of BonusGame 2 2 BlueQueen]
  obtain res gs' where r: "playGame BonusGame cycleStart 2 2 BlueQueen = Inr (res, gs')"
    and acc: "\<forall>instr. res = Some instr \<longrightarrow>
       board gs' = board cycleStart \<and>
       (\<exists>pc. getPiece (board gs') (2, 2) = Some pc \<and>
          move_from (move gs') = Some (2, 2) \<and>
          possiblePaths (move gs') = setPathsDFS (board cycleStart) (2, 2) (2, 2) pc [])"
    by blast
  from r cycleStart_select have eq: "gs' = cycleFrom"
      "res = Some \<lparr>tileInstructions = [\<lparr>colToSet = 2, rowToSet = 2, newOwner = NoOwner\<rparr>],
                      playing = Blue, instr_winner = None\<rparr>"
    by simp_all
  from acc eq have a: "board cycleFrom = board cycleStart"
    "\<exists>pc. getPiece (board cycleFrom) (2, 2) = Some pc \<and>
       move_from (move cycleFrom) = Some (2, 2) \<and>
       possiblePaths (move cycleFrom) = setPathsDFS (board cycleStart) (2, 2) (2, 2) pc []"
    by blast+
  have sel: "\<not> selectable BonusGame (board cycleStart) (4, 4) (activePlayer cycleStart)"
    by (simp add: selectable_def tileBelongsToPlayer_def getPiece_def cycleStart_fields
        cycleBoard_def)
  have gt: "getTile 4 4 = Some (4, 4)" by (simp add: getTile_eq2 set_getTiles)
  have hq: "playerHasQueen (board cycleStart) (activePlayer cycleStart)"
    using q by (simp add: playerHasQueen_iff)
  have n: "playGame BonusGame cycleStart 4 4 NoOwner = Inr (None, cycleStart)"
    using C10_source_selection_frame[OF cycleStart_inv f q, of BonusGame 4 4 NoOwner]
      playGame_select[OF gt cycleStart_fields(2) hq cycleStart_fields(4), of BonusGame NoOwner] sel
    by auto
  show ?thesis
    using a cycleStart_inv f q cycleStart_select cycleBoard_tiles(3) n
    by (auto simp: cycleStart_fields cycleBoard_paths)
qed

section \<open>The end of a turn\<close>

text \<open>The other player, and the row on which a player's queen wins.\<close>

definition rival :: "player \<Rightarrow> player" where
  "rival pl = (if pl = Blue then Red else Blue)"

definition winningRow :: "player \<Rightarrow> int" where
  "winningRow pl = (if pl = Blue then 7 else 0)"

lemma rival_neq [simp]: "rival pl \<noteq> pl" "pl \<noteq> rival pl"
  by (cases pl; simp add: rival_def)+


lemma queen_piece_iff:
  "(map_option getOwner p = Some pl \<and> map_option getType p = Some Queen) \<longleftrightarrow>
   p = Some (Piece pl Queen)"
proof (cases p)
  case None
  then show ?thesis by simp
next
  case (Some z)
  then show ?thesis by (cases z) auto
qed

lemma getQueen_Some:
  assumes "getQueen b pl = Some t"
  shows "t \<in> set getTiles" "getPiece b t = Some (Piece pl Queen)"
proof -
  from assms obtain i where i: "i < length getTiles" "t = getTiles ! i"
      "map_option getOwner (getPiece b t) = Some pl \<and> map_option getType (getPiece b t) = Some Queen"
    unfolding getQueen_def find_Some_iff by blast
  show "t \<in> set getTiles" using i(1,2) by simp
  show "getPiece b t = Some (Piece pl Queen)" using i(3) by (simp only: queen_piece_iff)
qed


lemma hasPlayerWon_if:
  assumes "\<exists>t \<in> set getTiles. getPiece b t = Some (Piece pl Queen)"
    and "\<forall>t \<in> set getTiles. getPiece b t = Some (Piece pl Queen) \<longrightarrow> getRow t = winningRow pl"
  shows "hasPlayerWon b pl"
proof -
  from assms(1) have "playerHasQueen b pl" by (simp add: playerHasQueen_iff)
  then obtain t where t: "getQueen b pl = Some t" by (auto simp: playerHasQueen_def)
  from getQueen_Some[OF t] assms(2) have "getRow t = winningRow pl" by blast
  then show ?thesis using t by (simp add: hasPlayerWon_def winningRow_def Let_def)
qed

lemma finishTurn_board [simp]: "board (finishTurn gs) = board gs"
  by (simp add: finishTurn_def setWinner_def switchPlayer_def)


lemma finishTurn_win:
  assumes "hasPlayerWon (board gs) (activePlayer gs)"
  shows "winner (finishTurn gs) = Some (activePlayer gs)" "status (finishTurn gs) = Inactive"
    "activePlayer (finishTurn gs) = activePlayer gs"
  using assms by (simp_all add: finishTurn_def setWinner_def)

lemma gameInv_pending:
  assumes "playerHasQueen b pl" "f \<in> set getTiles" "getPiece b f = Some pc" "getOwner pc = pl"
  shows "gameInv v \<lparr>board = b, status = Active, winner = None,
                    move = pendingMove v b f pc pl, activePlayer = pl\<rparr>"
  using assms by (simp add: gameInv_def pendingMove_def)

lemma validPaths_subset: "set (validPaths v ps) \<subseteq> set ps"
  by (cases v) (auto simp: validPaths_def)

text \<open>What the invariant says of a valid destination of the pending move.\<close>

lemma pending_destination:
  assumes inv: "gameInv v gs" and fr: "move_from (move gs) = Some f"
    and vd: "vd \<in> set (validDestinations (move gs))"
  shows "\<exists>pc. getPiece (board gs) f = Some pc \<and> getOwner pc = activePlayer gs \<and>
     path vd \<in> set (setPathsDFS (board gs) f f pc []) \<and>
     destination vd = last (path vd) \<and>
     captures vd = getCapturesForPath (board gs) (path vd) (activePlayer gs)"
proof -
  from gameInv_from(5)[OF inv fr] obtain pc where pc: "getPiece (board gs) f = Some pc"
      "getOwner pc = activePlayer gs"
      "move gs = pendingMove v (board gs) f pc (activePlayer gs)"
    by blast
  have "vd \<in> set (destinationsFrom v (board gs) f pc (activePlayer gs))"
    using vd unfolding pc(3) by (simp add: pendingMove_def)
  then obtain pth where pth: "pth \<in> set (validPaths v (setPathsDFS (board gs) f f pc []))"
      "vd = \<lparr>path = pth, destination = last pth,
             captures = getCapturesForPath (board gs) pth (activePlayer gs)\<rparr>"
    unfolding destinationsFrom_def by auto
  have "pth \<in> set (setPathsDFS (board gs) f f pc [])"
    using pth(1) validPaths_subset by blast
  then show ?thesis using pc(1,2) unfolding pth(2) by simp
qed

text \<open>Every tile of a recorded path, and so every destination, is a tile of the board.\<close>

lemma stepOK_on_board: "stepOK b s pc pth l \<Longrightarrow> l \<in> set getTiles"
  unfolding stepOK_def in_getAdjacentLandings in_getAdjacentEnemies by blast

lemma recorded_on_board:
  assumes "p \<in> set (setPathsDFS b s s pc [])" and "s \<in> set getTiles"
  shows "p \<noteq> [] \<and> set p \<subseteq> set getTiles"
proof -
  have "(set p \<subseteq> set getTiles \<and> p \<noteq> [] \<and> \<not> isTileOcuppied b (last p)) \<or>
        (\<exists>pth. p = pth @ [s] \<and> set pth \<subseteq> set getTiles \<and> cycleOK b s pc pth)"
  proof (rule setPathsDFS_invariant[where Q = "\<lambda>q. set q \<subseteq> set getTiles", OF assms(1)])
    show "set ([] @ [s]) \<subseteq> set getTiles" using assms(2) by simp
  next
    fix pth l
    assume "set pth \<subseteq> set getTiles" "stepOK b s pc pth l"
    then show "set (pth @ [l]) \<subseteq> set getTiles" using stepOK_on_board by auto
  qed
  then show ?thesis using assms(2) by auto
qed

lemma destination_on_board:
  assumes "gameInv v gs" and "move_from (move gs) = Some f"
    and "vd \<in> set (validDestinations (move gs))"
  shows "destination vd \<in> set getTiles"
proof -
  from pending_destination[OF assms] obtain pc where
    pc: "path vd \<in> set (setPathsDFS (board gs) f f pc [])" "destination vd = last (path vd)"
    by blast
  from recorded_on_board[OF pc(1) gameInv_from(4)[OF assms(1,2)]]
  show ?thesis unfolding pc(2) using last_in_set by blast
qed

text \<open>What a click on a valid destination other than \<open>from\<close> does.\<close>

lemma playGame_destination:
  assumes inv: "gameInv v gs" and fr: "move_from (move gs) = Some f"
    and ne: "(row, column) \<noteq> f"
    and vd: "\<exists>vd \<in> set (validDestinations (move gs)). destination vd = (row, column)"
  shows "playGame v gs row column ow =
     Inr (Some \<lparr>tileInstructions =
                  \<lparr>colToSet = column, rowToSet = row,
                    newOwner = getTileOwnerString (board gs) f\<rparr>
                  # getCaptureInstructions (getCapturesForDestination gs (row, column)),
                playing = activePlayer (finishTurn (gs\<lparr>board := movedBoard gs f (row, column)\<rparr>)),
                instr_winner = winner (finishTurn (gs\<lparr>board := movedBoard gs f (row, column)\<rparr>))\<rparr>,
          resetMove (finishTurn (gs\<lparr>board := movedBoard gs f (row, column)\<rparr>)))"
proof -
  note g = gameInv_from[OF inv fr]
  from vd obtain d where d: "d \<in> set (validDestinations (move gs))"
      "destination d = (row, column)"
    by blast
  have t: "(row, column) \<in> set getTiles"
    using destination_on_board[OF inv fr d(1)] unfolding d(2) .
  have gt: "getTile row column = Some (row, column)" using t by (simp add: getTile_eq2)
  have tv: "isToValid gs (row, column)" using vd by (simp add: isToValid_def list_ex_iff)
  show ?thesis by (rule playGame_move[OF gt g(1) g(2) fr g(3) ne tv])
qed








lemma cycleFrom_fields:
  "board cycleFrom = cycleBoard" "activePlayer cycleFrom = Blue"
  "move_from (move cycleFrom) = Some (2, 2)"
  "move cycleFrom = pendingMove BonusGame cycleBoard (2, 2) (Piece Blue Queen) Blue"
  by (simp_all add: cycleFrom_def cycleStart_def pendingMove_def)

lemma cycleFrom_inv: "gameInv BonusGame cycleFrom"
proof -
  have q: "playerHasQueen cycleBoard Blue"
    using cycleBoard_blue_queen by (simp add: playerHasQueen_iff)
  have eq: "cycleFrom = \<lparr>board = cycleBoard, status = Active, winner = None,
      move = pendingMove BonusGame cycleBoard (2, 2) (Piece Blue Queen) Blue,
      activePlayer = Blue\<rparr>"
    by (simp add: cycleFrom_def cycleStart_def)
  show ?thesis
    unfolding eq by (rule gameInv_pending[OF q cycleBoard_tiles(1) cycleBoard_tiles(3)]) simp
qed

lemma cycleFrom_destinations:
  "validDestinations (move cycleFrom) =
     [\<lparr>path = [(2, 2), (3, 3), (4, 4), (3, 5), (2, 6), (1, 5), (0, 4), (1, 3), (2, 2)],
       destination = (2, 2), captures = [(3, 3), (3, 5), (1, 5), (1, 3)]\<rparr>,
      \<lparr>path = [(2, 2), (3, 3), (4, 4), (3, 5), (2, 6), (1, 5), (0, 4)],
       destination = (0, 4), captures = [(3, 3), (3, 5), (1, 5)]\<rparr>,
      \<lparr>path = [(2, 2), (3, 3), (4, 4), (3, 5), (2, 6)],
       destination = (2, 6), captures = [(3, 3), (3, 5)]\<rparr>,
      \<lparr>path = [(2, 2), (3, 3), (4, 4)], destination = (4, 4), captures = [(3, 3)]\<rparr>,
      \<lparr>path = [(2, 2), (1, 3), (0, 4), (1, 5), (2, 6), (3, 5), (4, 4), (3, 3), (2, 2)],
       destination = (2, 2), captures = [(1, 3), (1, 5), (3, 5), (3, 3)]\<rparr>,
      \<lparr>path = [(2, 2), (1, 3), (0, 4), (1, 5), (2, 6), (3, 5), (4, 4)],
       destination = (4, 4), captures = [(1, 3), (1, 5), (3, 5)]\<rparr>,
      \<lparr>path = [(2, 2), (1, 3), (0, 4), (1, 5), (2, 6)],
       destination = (2, 6), captures = [(1, 3), (1, 5)]\<rparr>,
      \<lparr>path = [(2, 2), (1, 3), (0, 4)], destination = (0, 4), captures = [(1, 3)]\<rparr>]"
  unfolding cycleFrom_fields(4) pendingMove_def destinationsFrom_def cycleBoard_paths
  by (simp add: validPaths_def getCapturesForPath_def isTileOcuppied_def
      tileBelongsToPlayer_def getPiece_def cycleBoard_def)



section \<open>The win and the finished game\<close>

text \<open>A sequence of clicks, each played on the state the previous one left.\<close>

fun playClicks ::
  "variant \<Rightarrow> GameState \<Rightarrow> (int \<times> int \<times> tileOwner) list \<Rightarrow>
   error + (Instruction option list \<times> GameState)" where
  "playClicks v gs [] = Inr ([], gs)"
| "playClicks v gs ((row, column, ow) # cs) =
     (case playGame v gs row column ow of
        Inl e \<Rightarrow> Inl e
      | Inr (res, gs1) \<Rightarrow>
          (case playClicks v gs1 cs of
             Inl e \<Rightarrow> Inl e
           | Inr (rs, gs2) \<Rightarrow> Inr (res # rs, gs2)))"

lemma playClicks_finished:
  assumes "winner gs \<noteq> None"
  shows "playClicks v gs cs = Inr (replicate (length cs) None, gs)"
proof (induction cs)
  case Nil
  show ?case by simp
next
  case (Cons c cs)
  obtain row column ow where c: "c = (row, column, ow)" by (cases c) auto
  show ?case
    unfolding c using playGame_finished[OF assms, of v row column ow] Cons.IH by simp
qed

lemma promoted_win:
  assumes "hasPlayerWon (board (promoted gs t)) (activePlayer gs)"
  shows "winner (promoted gs t) = Some (activePlayer gs)" "status (promoted gs t) = Inactive"
proof -
  have "board (promoted gs t) = setNewQueen (board gs) t (activePlayer gs)"
    by (simp add: promoted_def Let_def setWinner_def)
  with assms have "hasPlayerWon (setNewQueen (board gs) t (activePlayer gs)) (activePlayer gs)"
    by simp
  then show "winner (promoted gs t) = Some (activePlayer gs)" "status (promoted gs t) = Inactive"
    by (simp_all add: promoted_def Let_def setWinner_def)
qed

text \<open>A promotion or a move that leaves the player's queens on the winning row.\<close>

lemma back_rank_win_accepted:
  assumes "gameInv v gs"
    and "playGame v gs row column ow = Inr (Some instr, gs')"
    and "\<not> (\<exists>t \<in> set getTiles. getPiece (board gs) t = Some (Piece (activePlayer gs) Queen)) \<or>
         (\<exists>f. move_from (move gs) = Some f \<and> (row, column) \<noteq> f)"
    and "\<exists>t \<in> set getTiles. getPiece (board gs') t = Some (Piece (activePlayer gs) Queen)"
    and "\<forall>t \<in> set getTiles. getPiece (board gs') t = Some (Piece (activePlayer gs) Queen) \<longrightarrow>
           getRow t = winningRow (activePlayer gs)"
  shows "winner gs' = Some (activePlayer gs) \<and> status gs' = Inactive \<and>
     activePlayer gs' = activePlayer gs \<and> instr_winner instr = Some (activePlayer gs) \<and>
     (\<forall>r c w. playGame v gs' r c w = Inr (None, gs')) \<and>
     (\<forall>cs. playClicks v gs' cs = Inr (replicate (length cs) None, gs'))"
proof -
  let ?ap = "activePlayer gs"
  obtain t where gt: "getTile row column = Some t"
    using assms(2) playGame_off_board[of row column v gs ow] by (cases "getTile row column") auto
  then have t: "t = (row, column)" unfolding getTile_Some_iff by blast
  have w: "winner gs = None"
  proof (rule ccontr)
    assume "winner gs \<noteq> None"
    from playGame_finished[OF this, of v row column ow] assms(2) show False by simp
  qed
  have won: "hasPlayerWon (board gs') ?ap"
    using hasPlayerWon_if[OF assms(4,5)] .
  have res: "winner gs' = Some ?ap \<and> status gs' = Inactive \<and> activePlayer gs' = ?ap \<and>
      instr_winner instr = Some ?ap"
  proof (cases "playerHasQueen (board gs) ?ap")
    case False
    have v: "isValidQueen (board gs) t ?ap"
    proof (rule ccontr)
      assume "\<not> isValidQueen (board gs) t ?ap"
      with playGame_promote[OF gt w False, of v ow] assms(2) show False by simp
    qed
    have eq: "gs' = promoted gs t" "instr_winner instr = winner (promoted gs t)"
      using playGame_promote[OF gt w False, of v ow] assms(2) v by auto
    show ?thesis
      using promoted_win[of gs t] won promoted_fields(3)[of gs t] unfolding eq by simp
  next
    case True
    then obtain f where f: "move_from (move gs) = Some f" "(row, column) \<noteq> f"
      using assms(3) by (auto simp: playerHasQueen_iff)
    note g = gameInv_from[OF assms(1) f(1)]
    let ?g = "gs\<lparr>board := movedBoard gs f t\<rparr>"
    have tv: "isToValid gs t"
    proof (rule ccontr)
      assume "\<not> isToValid gs t"
      with playGame_ignore[OF gt w True f(1) g(3), of v ow] f(2) t assms(2) show False by simp
    qed
    have ne: "t \<noteq> f" using f(2) t by simp
    have eq: "gs' = resetMove (finishTurn ?g)" "instr_winner instr = winner (finishTurn ?g)"
      using playGame_move[OF gt w True f(1) g(3) ne tv, of v ow] assms(2) by auto
    have "hasPlayerWon (board ?g) (activePlayer ?g)" using won unfolding eq by simp
    from finishTurn_win[OF this] show ?thesis unfolding eq by simp
  qed
  then have wn: "winner gs' \<noteq> None" by simp
  have one: "\<forall>r c w. playGame v gs' r c w = Inr (None, gs')"
    using playGame_finished[OF wn] by blast
  have many: "\<forall>cs. playClicks v gs' cs = Inr (replicate (length cs) None, gs')"
    using playClicks_finished[OF wn] by blast
  show ?thesis using res one many by blast
qed

text \<open>
  C7. Take a state of the game and a click that is played as a queen promotion (the
  active player has no queen) or as a move (a \<open>from\<close> is set and another tile is clicked).
  \<open>playGame\<close> raises no error. If the click is carried out and afterwards the player has
  a queen on the board and every queen of the player stands on the player's winning row
  (7 for blue, 0 for red), the player is the winner and the status is inactive; from
  then on every click, and every sequence of clicks, returns \<open>undefined\<close> and leaves the
  state as it is.
\<close>

theorem C7_back_rank_win:
  assumes "gameInv v gs"
    and "\<not> (\<exists>t \<in> set getTiles. getPiece (board gs) t = Some (Piece (activePlayer gs) Queen)) \<or>
         (\<exists>f. move_from (move gs) = Some f \<and> (row, column) \<noteq> f)"
  shows "\<exists>res gs'. playGame v gs row column ow = Inr (res, gs') \<and>
     (\<forall>instr. res = Some instr \<and>
        (\<exists>t \<in> set getTiles. getPiece (board gs') t = Some (Piece (activePlayer gs) Queen)) \<and>
        (\<forall>t \<in> set getTiles. getPiece (board gs') t = Some (Piece (activePlayer gs) Queen) \<longrightarrow>
           getRow t = winningRow (activePlayer gs)) \<longrightarrow>
        winner gs' = Some (activePlayer gs) \<and> status gs' = Inactive \<and>
        activePlayer gs' = activePlayer gs \<and> instr_winner instr = Some (activePlayer gs) \<and>
        (\<forall>r c w. playGame v gs' r c w = Inr (None, gs')) \<and>
        (\<forall>cs. playClicks v gs' cs = Inr (replicate (length cs) None, gs')))"
proof -
  from gameInv_playGame[OF assms(1), of row column ow] obtain res gs' where
    pg: "playGame v gs row column ow = Inr (res, gs')" by blast
  have "\<forall>instr. res = Some instr \<and>
        (\<exists>t \<in> set getTiles. getPiece (board gs') t = Some (Piece (activePlayer gs) Queen)) \<and>
        (\<forall>t \<in> set getTiles. getPiece (board gs') t = Some (Piece (activePlayer gs) Queen) \<longrightarrow>
           getRow t = winningRow (activePlayer gs)) \<longrightarrow>
        winner gs' = Some (activePlayer gs) \<and> status gs' = Inactive \<and>
        activePlayer gs' = activePlayer gs \<and> instr_winner instr = Some (activePlayer gs) \<and>
        (\<forall>r c w. playGame v gs' r c w = Inr (None, gs')) \<and>
        (\<forall>cs. playClicks v gs' cs = Inr (replicate (length cs) None, gs'))"
  proof (intro allI impI)
    fix instr
    assume a: "res = Some instr \<and>
        (\<exists>t \<in> set getTiles. getPiece (board gs') t = Some (Piece (activePlayer gs) Queen)) \<and>
        (\<forall>t \<in> set getTiles. getPiece (board gs') t = Some (Piece (activePlayer gs) Queen) \<longrightarrow>
           getRow t = winningRow (activePlayer gs))"
    then have p: "playGame v gs row column ow = Inr (Some instr, gs')" using pg by simp
    from a have q1: "\<exists>t \<in> set getTiles.
        getPiece (board gs') t = Some (Piece (activePlayer gs) Queen)"
      and q2: "\<forall>t \<in> set getTiles.
        getPiece (board gs') t = Some (Piece (activePlayer gs) Queen) \<longrightarrow>
        getRow t = winningRow (activePlayer gs)"
      by blast+
    show "winner gs' = Some (activePlayer gs) \<and> status gs' = Inactive \<and>
        activePlayer gs' = activePlayer gs \<and> instr_winner instr = Some (activePlayer gs) \<and>
        (\<forall>r c w. playGame v gs' r c w = Inr (None, gs')) \<and>
        (\<forall>cs. playClicks v gs' cs = Inr (replicate (length cs) None, gs'))"
      by (rule back_rank_win_accepted[OF assms(1) p assms(2) q1 q2])
  qed
  then show ?thesis using pg by blast
qed

text \<open>
  Two positions one click from the end: blue has picked up its queen on (6,2), next to
  the last row; red has no queen and its only piece is a pawn on row 0.
\<close>

definition winBoard :: board where
  "winBoard =
     (\<lambda>t. None)((6, 2) := Some (Piece Blue Queen), (5, 5) := Some (Piece Red Pawn))"

definition winFrom :: GameState where
  "winFrom =
     \<lparr>board = winBoard, status = Active, winner = None,
      move = pendingMove BaseGame winBoard (6, 2) (Piece Blue Queen) Blue,
      activePlayer = Blue\<rparr>"

definition crownBoard :: board where
  "crownBoard =
     (\<lambda>t. None)((0, 2) := Some (Piece Red Pawn), (4, 4) := Some (Piece Blue Queen),
                 (5, 5) := Some (Piece Blue Pawn))"

definition crownState :: GameState where
  "crownState =
     \<lparr>board = crownBoard, status = Active, winner = None, move = emptyMove,
      activePlayer = Red\<rparr>"

lemma winBoard_paths:
  "setPathsDFS winBoard (6, 2) (6, 2) (Piece Blue Queen) [] =
     [[(6, 2), (7, 3)], [(6, 2), (5, 3)], [(6, 2), (7, 1)], [(6, 2), (5, 1)]]"
  by (simp add: search_eval winBoard_def)

lemma winFrom_fields:
  "board winFrom = winBoard" "activePlayer winFrom = Blue"
  "move_from (move winFrom) = Some (6, 2)"
  "validDestinations (move winFrom) =
     [\<lparr>path = [(6, 2), (7, 3)], destination = (7, 3), captures = []\<rparr>,
      \<lparr>path = [(6, 2), (5, 3)], destination = (5, 3), captures = []\<rparr>,
      \<lparr>path = [(6, 2), (7, 1)], destination = (7, 1), captures = []\<rparr>,
      \<lparr>path = [(6, 2), (5, 1)], destination = (5, 1), captures = []\<rparr>]"
proof -
  show "board winFrom = winBoard" "activePlayer winFrom = Blue"
    "move_from (move winFrom) = Some (6, 2)"
    by (simp_all add: winFrom_def pendingMove_def)
  have "validDestinations (move winFrom) =
      destinationsFrom BaseGame winBoard (6, 2) (Piece Blue Queen) Blue"
    by (simp add: winFrom_def pendingMove_def)
  then show "validDestinations (move winFrom) =
     [\<lparr>path = [(6, 2), (7, 3)], destination = (7, 3), captures = []\<rparr>,
      \<lparr>path = [(6, 2), (5, 3)], destination = (5, 3), captures = []\<rparr>,
      \<lparr>path = [(6, 2), (7, 1)], destination = (7, 1), captures = []\<rparr>,
      \<lparr>path = [(6, 2), (5, 1)], destination = (5, 1), captures = []\<rparr>]"
    unfolding destinationsFrom_def winBoard_paths
    by (simp add: validPaths_def getCapturesForPath_def isTileOcuppied_def
        tileBelongsToPlayer_def getPiece_def winBoard_def)
qed

lemma winFrom_inv: "gameInv BaseGame winFrom"
proof -
  have q: "playerHasQueen winBoard Blue"
    unfolding playerHasQueen_iff getTiles_list by (simp add: getPiece_def winBoard_def)
  show ?thesis
    unfolding winFrom_def
    by (rule gameInv_pending[OF q]) (simp_all add: set_getTiles getPiece_def winBoard_def)
qed

lemma winFrom_moved:
  "movedBoard winFrom (6, 2) (7, 3) =
     (\<lambda>t. None)((7, 3) := Some (Piece Blue Queen), (5, 5) := Some (Piece Red Pawn))"
  by (rule ext)
    (simp add: movedBoard_def getCapturesForDestination_def winFrom_fields capture_def
      setTilePiece_def setPiece_def getPiece_def winBoard_def Let_def)

lemma crownState_fields:
  "board crownState = crownBoard" "winner crownState = None"
  "move crownState = emptyMove" "activePlayer crownState = Red"
  by (simp_all add: crownState_def)

lemma crownState_inv: "gameInv v crownState"
  by (simp add: gameInv_def crownState_def emptyMove_def)

lemma crownBoard_no_red_queen:
  "\<not> (\<exists>t \<in> set getTiles. getPiece crownBoard t = Some (Piece Red Queen))"
  unfolding getTiles_list by (simp add: getPiece_def crownBoard_def)

lemma crownBoard_idle: "isIdlePiece crownBoard Red (0, 2)"
  unfolding isIdlePiece_def getTiles_list
  by (simp add: tileBelongsToPlayer_def getPiece_def getRow_def crownBoard_def)

theorem C7_back_rank_win_witness:
  "gameInv BaseGame winFrom \<and> move_from (move winFrom) = Some (6, 2) \<and>
   (\<exists>instr gs'. playGame BaseGame winFrom 7 3 NoOwner = Inr (Some instr, gs') \<and>
      getPiece (board gs') (7, 3) = Some (Piece Blue Queen) \<and>
      winner gs' = Some Blue \<and> status gs' = Inactive \<and> instr_winner instr = Some Blue \<and>
      playGame BaseGame gs' 7 3 BlueQueen = Inr (None, gs') \<and>
      playClicks BaseGame gs' [(7, 3, BlueQueen), (5, 5, RedPawn)] = Inr ([None, None], gs')) \<and>
   gameInv BonusGame crownState \<and>
   \<not> (\<exists>t \<in> set getTiles. getPiece (board crownState) t = Some (Piece (activePlayer crownState) Queen)) \<and>
   (\<exists>instr gs'. playGame BonusGame crownState 0 2 RedPawn = Inr (Some instr, gs') \<and>
      getPiece (board gs') (0, 2) = Some (Piece Red Queen) \<and>
      winner gs' = Some Red \<and> status gs' = Inactive \<and> instr_winner instr = Some Red \<and>
      playGame BonusGame gs' 4 4 BlueQueen = Inr (None, gs'))"
proof -
  have t: "(7 :: int, 3 :: int) \<noteq> (6, 2)" by simp
  have vd: "\<exists>vd \<in> set (validDestinations (move winFrom)). destination vd = (7, 3)"
    by (simp add: winFrom_fields)
  note pg = playGame_destination[OF winFrom_inv winFrom_fields(3) t vd, of NoOwner]
  let ?g = "resetMove (finishTurn (winFrom\<lparr>board := movedBoard winFrom (6, 2) (7, 3)\<rparr>))"
  have mv: "\<not> (\<exists>t \<in> set getTiles. getPiece (board winFrom) t = Some (Piece (activePlayer winFrom) Queen)) \<or>
      (\<exists>f. move_from (move winFrom) = Some f \<and> (7 :: int, 3 :: int) \<noteq> f)"
    by (simp add: winFrom_fields(3))
  have b: "board ?g = movedBoard winFrom (6, 2) (7, 3)" by simp
  have q1: "\<exists>t \<in> set getTiles. getPiece (board ?g) t = Some (Piece (activePlayer winFrom) Queen)"
    unfolding b winFrom_moved winFrom_fields(2) getTiles_list by (simp add: getPiece_def)
  have q2: "\<forall>t \<in> set getTiles. getPiece (board ?g) t = Some (Piece (activePlayer winFrom) Queen) \<longrightarrow>
      getRow t = winningRow (activePlayer winFrom)"
    unfolding b winFrom_moved winFrom_fields(2) getTiles_list
    by (simp add: getPiece_def getRow_def winningRow_def)
  have p1: "getPiece (board ?g) (7, 3) = Some (Piece Blue Queen)"
    unfolding b winFrom_moved by (simp add: getPiece_def)
  have a: "\<exists>instr gs'. playGame BaseGame winFrom 7 3 NoOwner = Inr (Some instr, gs') \<and>
      getPiece (board gs') (7, 3) = Some (Piece Blue Queen) \<and>
      winner gs' = Some Blue \<and> status gs' = Inactive \<and> instr_winner instr = Some Blue \<and>
      playGame BaseGame gs' 7 3 BlueQueen = Inr (None, gs') \<and>
      playClicks BaseGame gs' [(7, 3, BlueQueen), (5, 5, RedPawn)] = Inr ([None, None], gs')"
  proof -
    from C7_back_rank_win[OF winFrom_inv mv, of NoOwner] obtain res gs' where
      r: "playGame BaseGame winFrom 7 3 NoOwner = Inr (res, gs')"
      and w: "\<forall>instr. res = Some instr \<and>
        (\<exists>t \<in> set getTiles. getPiece (board gs') t = Some (Piece (activePlayer winFrom) Queen)) \<and>
        (\<forall>t \<in> set getTiles. getPiece (board gs') t = Some (Piece (activePlayer winFrom) Queen) \<longrightarrow>
           getRow t = winningRow (activePlayer winFrom)) \<longrightarrow>
        winner gs' = Some (activePlayer winFrom) \<and> status gs' = Inactive \<and>
        activePlayer gs' = activePlayer winFrom \<and>
        instr_winner instr = Some (activePlayer winFrom) \<and>
        (\<forall>r c w. playGame BaseGame gs' r c w = Inr (None, gs')) \<and>
        (\<forall>cs. playClicks BaseGame gs' cs = Inr (replicate (length cs) None, gs'))"
      by blast
    from r pg have "res \<noteq> None" and eq2: "gs' = ?g" by auto
    then obtain instr where eq: "res = Some instr" "gs' = ?g" by auto
    from w[rule_format, of instr] eq q1 q2
    have "winner ?g = Some Blue \<and> status ?g = Inactive \<and> instr_winner instr = Some Blue \<and>
        (\<forall>r c w. playGame BaseGame ?g r c w = Inr (None, ?g)) \<and>
        (\<forall>cs. playClicks BaseGame ?g cs = Inr (replicate (length cs) None, ?g))"
      by (simp add: winFrom_fields(2) del: playClicks.simps)
    then have "winner ?g = Some Blue" "status ?g = Inactive" "instr_winner instr = Some Blue"
      "playGame BaseGame ?g 7 3 BlueQueen = Inr (None, ?g)"
      "playClicks BaseGame ?g [(7, 3, BlueQueen), (5, 5, RedPawn)] =
         Inr (replicate (length [(7 :: int, 3 :: int, BlueQueen), (5, 5, RedPawn)]) None, ?g)"
      by blast+
    then show ?thesis using r eq p1 by (simp del: playClicks.simps)
  qed
  have nq: "\<not> (\<exists>t \<in> set getTiles.
      getPiece (board crownState) t = Some (Piece (activePlayer crownState) Queen))"
    using crownBoard_no_red_queen by (simp add: crownState_fields)
  have gt: "getTile 0 2 = Some (0, 2)" by (simp add: getTile_eq2 set_getTiles)
  have hq: "\<not> playerHasQueen (board crownState) (activePlayer crownState)"
    using nq by (simp add: playerHasQueen_iff)
  have iv: "isValidQueen (board crownState) (0, 2) (activePlayer crownState)"
    using crownBoard_idle by (simp add: isValidQueen_iff crownState_fields)
  have pp: "playGame BonusGame crownState 0 2 RedPawn =
      Inr (Some \<lparr>tileInstructions = [\<lparr>colToSet = 2, rowToSet = 0, newOwner = RedQueen\<rparr>],
                 playing = Red, instr_winner = winner (promoted crownState (0, 2))\<rparr>,
           promoted crownState (0, 2))"
    using playGame_promote[OF gt crownState_fields(2) hq, of BonusGame RedPawn] iv
    by (simp add: crownState_fields)
  have cb: "board (promoted crownState (0, 2)) = crownBoard((0, 2) := Some (Piece Red Queen))"
    by (simp add: promoted_fields crownState_fields)
  have pr: "\<not> (\<exists>t \<in> set getTiles. getPiece (board crownState) t = Some (Piece (activePlayer crownState) Queen)) \<or>
      (\<exists>f. move_from (move crownState) = Some f \<and> (0 :: int, 2 :: int) \<noteq> f)"
    using nq by simp
  have r1: "\<exists>t \<in> set getTiles.
      getPiece (board (promoted crownState (0, 2))) t = Some (Piece (activePlayer crownState) Queen)"
    unfolding cb crownState_fields getTiles_list by (simp add: getPiece_def crownBoard_def)
  have r2: "\<forall>t \<in> set getTiles.
      getPiece (board (promoted crownState (0, 2))) t = Some (Piece (activePlayer crownState) Queen) \<longrightarrow>
      getRow t = winningRow (activePlayer crownState)"
    unfolding cb crownState_fields getTiles_list
    by (simp add: getPiece_def getRow_def winningRow_def crownBoard_def)
  have p2: "getPiece (board (promoted crownState (0, 2))) (0, 2) = Some (Piece Red Queen)"
    unfolding cb by (simp add: getPiece_def)
  have c: "\<exists>instr gs'. playGame BonusGame crownState 0 2 RedPawn = Inr (Some instr, gs') \<and>
      getPiece (board gs') (0, 2) = Some (Piece Red Queen) \<and>
      winner gs' = Some Red \<and> status gs' = Inactive \<and> instr_winner instr = Some Red \<and>
      playGame BonusGame gs' 4 4 BlueQueen = Inr (None, gs')"
  proof -
    let ?h = "promoted crownState (0, 2)"
    from C7_back_rank_win[OF crownState_inv[of BonusGame] pr, of RedPawn] obtain res gs' where
      r: "playGame BonusGame crownState 0 2 RedPawn = Inr (res, gs')"
      and w: "\<forall>instr. res = Some instr \<and>
        (\<exists>t \<in> set getTiles. getPiece (board gs') t = Some (Piece (activePlayer crownState) Queen)) \<and>
        (\<forall>t \<in> set getTiles. getPiece (board gs') t = Some (Piece (activePlayer crownState) Queen) \<longrightarrow>
           getRow t = winningRow (activePlayer crownState)) \<longrightarrow>
        winner gs' = Some (activePlayer crownState) \<and> status gs' = Inactive \<and>
        instr_winner instr = Some (activePlayer crownState) \<and>
        (\<forall>r c w. playGame BonusGame gs' r c w = Inr (None, gs'))"
      by blast
    from r pp have "res \<noteq> None" and eq2: "gs' = ?h" by auto
    then obtain instr where eq: "res = Some instr" "gs' = ?h" by auto
    from w[rule_format, of instr] eq r1 r2
    have "winner ?h = Some Red \<and> status ?h = Inactive \<and> instr_winner instr = Some Red \<and>
        (\<forall>r c w. playGame BonusGame ?h r c w = Inr (None, ?h))"
      by (simp add: crownState_fields)
    then have "winner ?h = Some Red" "status ?h = Inactive" "instr_winner instr = Some Red"
      "playGame BonusGame ?h 4 4 BlueQueen = Inr (None, ?h)"
      by blast+
    then show ?thesis using r eq p2 by simp
  qed
  show ?thesis
    using winFrom_inv winFrom_fields(3) a crownState_inv nq c by blast
qed

section \<open>Captures and the board after a move\<close>









text \<open>
  The cyclic return path is a valid destination whose destination is \<open>from\<close>: a click on
  it puts the piece back and applies nothing.
\<close>

lemma cyclic_destination_cancels:
  "\<lparr>path = [(2, 2), (3, 3), (4, 4), (3, 5), (2, 6), (1, 5), (0, 4), (1, 3), (2, 2)],
     destination = (2, 2), captures = [(3, 3), (3, 5), (1, 5), (1, 3)]\<rparr>
     \<in> set (validDestinations (move cycleFrom)) \<and>
   playGame BonusGame cycleFrom 2 2 NoOwner =
     Inr (Some \<lparr>tileInstructions = [\<lparr>colToSet = 2, rowToSet = 2, newOwner = BlueQueen\<rparr>],
                playing = Blue, instr_winner = None\<rparr>,
          cycleStart)"
proof -
  note g = gameInv_from[OF cycleFrom_inv cycleFrom_fields(3)]
  have gt: "getTile 2 2 = Some (2, 2)" by (simp add: getTile_eq2 set_getTiles)
  have rs: "resetMove cycleFrom = cycleStart"
    by (simp add: resetMove_eq cycleFrom_def cycleStart_def)
  have ow: "getTileOwnerString (board cycleFrom) (2, 2) = BlueQueen"
    by (simp add: getTileOwnerString_def cycleFrom_fields(1) cycleBoard_tiles(3))
  have w: "winner cycleFrom = None" by (rule g(1))
  show ?thesis
    using playGame_cancel[OF gt g(1) g(2) cycleFrom_fields(3) g(3), of BonusGame NoOwner]
    by (simp add: cycleFrom_destinations rs ow w cycleFrom_fields(2))
qed



section \<open>Ignored clicks\<close>












end
